theory Spec2Isabelle
  imports Complex_Main
begin

section \<open>VocalCore pitch detection and correction engine\<close>

text \<open>
  A shallow embedding of the pitch detection module (\<open>detectPitch\<close>, \<open>smoothPitchTrack\<close>
  and the MIDI helpers) and of the pitch correction module (\<open>computeTargetPitches\<close>,
  \<open>findPitchMarks\<close>, \<open>psolaShift\<close>, \<open>correctPitch\<close>).

  Numbers. The source computes in IEEE doubles and stores samples in \<open>Float32Array\<close>s.
  The embedding computes in exact real arithmetic: rounding, overflow and the sign of zero
  are left out. What is kept of IEEE arithmetic is the part that decides control flow:
  \<open>NaN\<close> and the two infinities, wherever the source can produce them from finite
  in-range inputs (the normalised difference of a silent window, the parabolic adjustment,
  the octave ratio, the \<open>-Infinity\<close> start value of a peak search, a read past the end
  of an array). Divisions by the sample rate, the hop size and the frequency bounds are
  HOL's \<open>/\<close>, which is the source's division for a non-zero divisor; the
  theorems assume those divisors positive. Every other division of the source is by a
  constant or behind a test that makes the divisor positive.

  Integers. Sample positions, periods and lags are \<open>int\<close> or \<open>nat\<close>; array lengths,
  the hop size and the window size are \<open>nat\<close>.
\<close>

subsection \<open>Numbers with NaN and infinities\<close>

datatype jsnum = Fin real | PInf | NInf | NaN

fun js_neg :: "jsnum \<Rightarrow> jsnum" where
  "js_neg (Fin x) = Fin (- x)"
| "js_neg PInf = NInf"
| "js_neg NInf = PInf"
| "js_neg NaN = NaN"

fun js_add :: "jsnum \<Rightarrow> jsnum \<Rightarrow> jsnum" where
  "js_add (Fin x) (Fin y) = Fin (x + y)"
| "js_add NaN _ = NaN"
| "js_add _ NaN = NaN"
| "js_add PInf NInf = NaN"
| "js_add NInf PInf = NaN"
| "js_add PInf _ = PInf"
| "js_add _ PInf = PInf"
| "js_add NInf _ = NInf"
| "js_add _ NInf = NInf"

definition js_sub :: "jsnum \<Rightarrow> jsnum \<Rightarrow> jsnum" where
  "js_sub a b = js_add a (js_neg b)"

text \<open>The infinity with the sign of a product or quotient; \<open>pos\<close> says the sign is plus.\<close>

definition js_inf :: "bool \<Rightarrow> jsnum" where
  "js_inf pos = (if pos then PInf else NInf)"

fun js_mul :: "jsnum \<Rightarrow> jsnum \<Rightarrow> jsnum" where
  "js_mul (Fin x) (Fin y) = Fin (x * y)"
| "js_mul NaN _ = NaN"
| "js_mul _ NaN = NaN"
| "js_mul (Fin x) PInf = (if x = 0 then NaN else js_inf (0 < x))"
| "js_mul (Fin x) NInf = (if x = 0 then NaN else js_inf (x < 0))"
| "js_mul PInf (Fin y) = (if y = 0 then NaN else js_inf (0 < y))"
| "js_mul NInf (Fin y) = (if y = 0 then NaN else js_inf (y < 0))"
| "js_mul PInf PInf = PInf"
| "js_mul NInf NInf = PInf"
| "js_mul PInf NInf = NInf"
| "js_mul NInf PInf = NInf"

text \<open>Division; a zero divisor is read as \<open>+0\<close>.\<close>

fun js_div :: "jsnum \<Rightarrow> jsnum \<Rightarrow> jsnum" where
  "js_div (Fin x) (Fin y) =
     (if y \<noteq> 0 then Fin (x / y) else if x = 0 then NaN else js_inf (0 < x))"
| "js_div NaN _ = NaN"
| "js_div _ NaN = NaN"
| "js_div (Fin x) PInf = Fin 0"
| "js_div (Fin x) NInf = Fin 0"
| "js_div PInf (Fin y) = js_inf (0 \<le> y)"
| "js_div NInf (Fin y) = js_inf (y < 0)"
| "js_div PInf PInf = NaN"
| "js_div PInf NInf = NaN"
| "js_div NInf PInf = NaN"
| "js_div NInf NInf = NaN"

fun js_abs :: "jsnum \<Rightarrow> jsnum" where
  "js_abs (Fin x) = Fin \<bar>x\<bar>"
| "js_abs PInf = PInf"
| "js_abs NInf = PInf"
| "js_abs NaN = NaN"

text \<open>The comparison \<open>a < b\<close>: false as soon as one side is \<open>NaN\<close>.\<close>

fun js_lt :: "jsnum \<Rightarrow> jsnum \<Rightarrow> bool" where
  "js_lt (Fin x) (Fin y) = (x < y)"
| "js_lt NaN _ = False"
| "js_lt _ NaN = False"
| "js_lt NInf NInf = False"
| "js_lt NInf _ = True"
| "js_lt _ NInf = False"
| "js_lt PInf _ = False"
| "js_lt _ PInf = True"

text \<open>A read of a typed array: \<open>undefined\<close> past the end, which arithmetic turns into \<open>NaN\<close>.\<close>

definition sample :: "real list \<Rightarrow> int \<Rightarrow> jsnum" where
  "sample xs i = (if 0 \<le> i \<and> i < int (length xs) then Fin (xs ! nat i) else NaN)"

definition entry :: "jsnum list \<Rightarrow> int \<Rightarrow> jsnum" where
  "entry xs i = (if 0 \<le> i \<and> i < int (length xs) then xs ! nat i else NaN)"

subsection \<open>Pitch frames and MIDI conversions\<close>

record PitchFrame =
  time :: real
  frequency :: real
  confidence :: jsnum
  midiNote :: int
  centsOff :: real
  noteName :: string
  voiced :: bool

definition NOTE_NAMES :: "string list" where
  "NOTE_NAMES = [''C'', ''C#'', ''D'', ''D#'', ''E'', ''F'', ''F#'', ''G'', ''G#'', ''A'', ''A#'', ''B'']"

definition frequencyToMidi :: "real \<Rightarrow> real" where
  "frequencyToMidi freq = (if freq \<le> 0 then 0 else 69 + 12 * log 2 (freq / 440))"

definition midiToFrequency :: "real \<Rightarrow> real" where
  "midiToFrequency midi = 440 * 2 powr ((midi - 69) / 12)"

text \<open>\<open>Math.round\<close> rounds a half up, as \<^const>\<open>round\<close> does.\<close>

definition getCentsOff :: "real \<Rightarrow> real" where
  "getCentsOff midi = (midi - of_int (round midi)) * 100"

text \<open>The decimal digits of a natural number, and an integer printed as the template string does.\<close>

fun digit_char :: "nat \<Rightarrow> char" where
  "digit_char n = (''0123456789'' ! (n mod 10))"

function digits :: "nat \<Rightarrow> string" where
  "digits n = (if n < 10 then [digit_char n] else digits (n div 10) @ [digit_char n])"
  by pat_completeness auto
termination
  by (relation "measure id") auto

declare digits.simps [simp del]

definition show_int :: "int \<Rightarrow> string" where
  "show_int k = (if k < 0 then CHR ''-'' # digits (nat (- k)) else digits (nat k))"

text \<open>The remainder \<open>%\<close> takes the sign of the dividend.\<close>

definition js_rem :: "int \<Rightarrow> int \<Rightarrow> int" where
  "js_rem a b = (if 0 \<le> a then a mod \<bar>b\<bar> else - ((- a) mod \<bar>b\<bar>))"

definition midiToNoteName :: "real \<Rightarrow> string" where
  "midiToNoteName midi =
     (let roundedMidi = round midi;
          octave = roundedMidi div 12 - 1;
          noteIndex = js_rem roundedMidi 12
      in (if 0 \<le> noteIndex \<and> noteIndex < int (length NOTE_NAMES)
          then NOTE_NAMES ! nat noteIndex else ''undefined'') @ show_int octave)"

subsection \<open>YIN pitch detection\<close>

record PitchTrack =
  frames :: "PitchFrame list"
  sampleRate :: real
  hopSize :: nat
  medianPitch :: real

text \<open>Step 1: the difference function of the window that starts at \<open>center\<close>.\<close>

definition difference :: "real list \<Rightarrow> nat \<Rightarrow> nat \<Rightarrow> nat \<Rightarrow> jsnum" where
  "difference signal center halfWindow tau =
     foldl (\<lambda>sum j.
              let delta = js_sub (sample signal (int (center + j)))
                                 (sample signal (int (center + j + tau)))
              in js_add sum (js_mul delta delta))
       (Fin 0) [0..<halfWindow]"

definition diff_array :: "real list \<Rightarrow> nat \<Rightarrow> nat \<Rightarrow> jsnum list" where
  "diff_array signal center halfWindow = map (difference signal center halfWindow) [0..<halfWindow]"

text \<open>
  Step 2: the cumulative mean normalised difference. The state of the loop is the running
  sum and the array; \<open>cmndf[0] = 1\<close> on an empty typed array writes nothing.
\<close>

definition cmndf_step :: "jsnum list \<Rightarrow> jsnum \<times> jsnum list \<Rightarrow> nat \<Rightarrow> jsnum \<times> jsnum list" where
  "cmndf_step diff s tau =
     (let runningSum = js_add (fst s) (entry diff (int tau))
      in (runningSum,
          (snd s)[tau := js_div (js_mul (entry diff (int tau)) (Fin (real tau))) runningSum]))"

definition cmndf_array :: "jsnum list \<Rightarrow> nat \<Rightarrow> jsnum list" where
  "cmndf_array diff halfWindow =
     snd (foldl (cmndf_step diff) (Fin 0, (replicate halfWindow (Fin 0))[0 := Fin 1])
            [1..<halfWindow])"

text \<open>Step 3: the first dip below the threshold, walked to its local minimum.\<close>

function walk_min :: "jsnum list \<Rightarrow> int \<Rightarrow> int \<Rightarrow> int" where
  "walk_min cmndf searchMax tau =
     (if tau + 1 < searchMax \<and> js_lt (entry cmndf (tau + 1)) (entry cmndf tau)
      then walk_min cmndf searchMax (tau + 1) else tau)"
  by pat_completeness auto
termination
  by (relation "measure (\<lambda>(cmndf, searchMax, tau). nat (searchMax - tau))") auto

declare walk_min.simps [simp del]

text \<open>The pair is \<open>(bestTau, bestVal)\<close>; the list holds the lags still to scan.\<close>

fun threshold_search :: "jsnum list \<Rightarrow> real \<Rightarrow> int \<Rightarrow> int list \<Rightarrow> int \<times> jsnum" where
  "threshold_search cmndf threshold searchMax [] = (- 1, Fin 1)"
| "threshold_search cmndf threshold searchMax (tau # taus) =
     (if js_lt (entry cmndf tau) (Fin threshold)
      then (let t = walk_min cmndf searchMax tau in (t, entry cmndf t))
      else threshold_search cmndf threshold searchMax taus)"

definition global_min :: "jsnum list \<Rightarrow> int list \<Rightarrow> int \<times> jsnum \<Rightarrow> int \<times> jsnum" where
  "global_min cmndf taus best =
     foldl (\<lambda>b tau. if js_lt (entry cmndf tau) (snd b) then (tau, entry cmndf tau) else b)
       best taus"

text \<open>
  Step 4: parabolic interpolation. \<open>Math.abs(adjustment) < 1\<close> holds for a finite
  adjustment of magnitude below one only.
\<close>

definition refine_tau :: "jsnum list \<Rightarrow> nat \<Rightarrow> int \<Rightarrow> real" where
  "refine_tau cmndf halfWindow bestTau =
     (if 0 < bestTau \<and> bestTau < int halfWindow - 1
      then (let s0 = entry cmndf (bestTau - 1);
                s1 = entry cmndf bestTau;
                s2 = entry cmndf (bestTau + 1);
                adjustment = js_div (js_sub s0 s2)
                               (js_mul (Fin 2) (js_add (js_sub s0 (js_mul (Fin 2) s1)) s2))
            in (case adjustment of
                  Fin a \<Rightarrow> if \<bar>a\<bar> < 1 then of_int bestTau + a else of_int bestTau
                | _ \<Rightarrow> of_int bestTau))
      else of_int bestTau)"

definition analyse_frame ::
  "real list \<Rightarrow> real \<Rightarrow> nat \<Rightarrow> real \<Rightarrow> real \<Rightarrow> real \<Rightarrow> nat \<Rightarrow> PitchFrame" where
  "analyse_frame signal sr windowSize threshold minFreq maxFreq center =
     (let minPeriod = \<lfloor>sr / maxFreq\<rfloor>;
          maxPeriod = \<lceil>sr / minFreq\<rceil>;
          halfWindow = windowSize div 2;
          cmndf = cmndf_array (diff_array signal center halfWindow) halfWindow;
          searchMin = max minPeriod 2;
          searchMax = min maxPeriod (int halfWindow - 1);
          dip = threshold_search cmndf threshold searchMax [searchMin..searchMax - 1];
          best = (if fst dip < 0 then global_min cmndf [searchMin..searchMax - 1] dip else dip);
          bestTau = fst best;
          bestVal = snd best;
          refinedTau = refine_tau cmndf halfWindow bestTau;
          isVoiced = js_lt bestVal (Fin (threshold * 2));
          freq = (if isVoiced \<and> 0 < refinedTau then sr / refinedTau else 0);
          midi = frequencyToMidi freq
      in \<lparr>time = real center / sr,
          frequency = freq,
          confidence = (if isVoiced then js_sub (Fin 1) bestVal else Fin 0),
          midiNote = round midi,
          centsOff = getCentsOff midi,
          noteName = (if 0 < freq then midiToNoteName midi else ''-''),
          voiced = isVoiced\<rparr>)"

text \<open>
  The loop over the window starts. With a zero hop the start never advances and the loop
  does not end: it is a partial function, and \<open>None\<close> stands for no result.
\<close>

partial_function (option) detect_loop ::
  "real list \<Rightarrow> real \<Rightarrow> nat \<Rightarrow> nat \<Rightarrow> real \<Rightarrow> real \<Rightarrow> real \<Rightarrow> nat \<Rightarrow> PitchFrame list
     \<Rightarrow> PitchFrame list option" where
  "detect_loop signal sr hop windowSize threshold minFreq maxFreq center acc =
     (if center + windowSize < length signal
      then detect_loop signal sr hop windowSize threshold minFreq maxFreq (center + hop)
             (acc @ [analyse_frame signal sr windowSize threshold minFreq maxFreq center])
      else Some acc)"

definition median_pitch :: "PitchFrame list \<Rightarrow> real" where
  "median_pitch fs =
     (let voicedFreqs = sort (map frequency (filter voiced fs))
      in if 0 < length voicedFreqs then voicedFreqs ! (length voicedFreqs div 2) else 0)"

definition detectPitch ::
  "real list \<Rightarrow> real \<Rightarrow> nat \<Rightarrow> nat \<Rightarrow> real \<Rightarrow> real \<Rightarrow> real \<Rightarrow> PitchTrack option" where
  "detectPitch signal sr hop windowSize threshold minFreq maxFreq =
     (case detect_loop signal sr hop windowSize threshold minFreq maxFreq 0 [] of
        None \<Rightarrow> None
      | Some fs \<Rightarrow>
          Some \<lparr>frames = fs, sampleRate = sr, hopSize = hop, medianPitch = median_pitch fs\<rparr>)"

subsection \<open>Smoothing the pitch track\<close>

text \<open>
  A \<open>PitchFrame\<close> of the source is an object, and \<open>[...track.frames]\<close> copies the array
  of references, not the objects. The store maps a reference to the object's fields; the
  argument \<open>trackFrames\<close> is the array \<open>track.frames\<close>, the first result the returned array.
\<close>

type_synonym ref = nat

type_synonym store = "ref \<Rightarrow> PitchFrame"

definition neighborhood :: "store \<Rightarrow> ref list \<Rightarrow> nat \<Rightarrow> nat \<Rightarrow> real list" where
  "neighborhood st fs halfWin i =
     map (\<lambda>j. frequency (st (fs ! j)))
       (filter (\<lambda>j. voiced (st (fs ! j)))
          [i - halfWin ..< min (length fs - 1) (i + halfWin) + 1])"

definition octave_fix :: "real \<Rightarrow> real \<Rightarrow> real" where
  "octave_fix freq medianFreq =
     (let ratio = js_div (Fin freq) (Fin medianFreq)
      in if js_lt (Fin (3 / 2)) ratio then freq / 2
         else if js_lt ratio (Fin (67 / 100)) then freq * 2
         else freq)"

definition rederive :: "PitchFrame \<Rightarrow> real \<Rightarrow> PitchFrame" where
  "rederive fr freq =
     (let midi = frequencyToMidi freq
      in fr\<lparr>frequency := freq, midiNote := round midi, centsOff := getCentsOff midi,
             noteName := midiToNoteName midi\<rparr>)"

definition smooth_frame :: "ref list \<Rightarrow> nat \<Rightarrow> store \<Rightarrow> nat \<Rightarrow> store" where
  "smooth_frame fs medianWindowSize st i =
     (if \<not> voiced (st (fs ! i)) then st
      else (let nb = neighborhood st fs (medianWindowSize div 2) i
            in if 3 \<le> length nb
               then (let medianFreq = sort nb ! (length nb div 2)
                     in st(fs ! i :=
                          rederive (st (fs ! i)) (octave_fix (frequency (st (fs ! i))) medianFreq)))
               else st))"

definition smoothPitchTrack :: "store \<Rightarrow> ref list \<Rightarrow> nat \<Rightarrow> ref list \<times> store" where
  "smoothPitchTrack st trackFrames medianWindowSize =
     (trackFrames, foldl (smooth_frame trackFrames medianWindowSize) st [0..<length trackFrames])"

text \<open>
  Smoothing the frames that \<open>detectPitch\<close> has just created: every frame is an object of
  its own, at the reference that is its index.
\<close>

definition fresh_store :: "PitchFrame list \<Rightarrow> store" where
  "fresh_store fs = (\<lambda>r. fs ! r)"

definition smooth_fresh :: "PitchFrame list \<Rightarrow> nat \<Rightarrow> PitchFrame list" where
  "smooth_fresh fs medianWindowSize =
     (let res = smoothPitchTrack (fresh_store fs) [0..<length fs] medianWindowSize
      in map (snd res) (fst res))"

subsection \<open>Target pitches\<close>

record CorrectionParams =
  retuneSpeed :: real
  humanize :: real
  tuneAmount :: real

definition vibrato :: "real \<Rightarrow> real \<Rightarrow> real" where
  "vibrato humanizeAmount t =
     sin (2 * pi * (45 / 10 + humanizeAmount * 2) * t) * (humanizeAmount * 15) / 100"

definition drift :: "real \<Rightarrow> nat \<Rightarrow> real" where
  "drift humanizeAmount i =
     (sin (real i * (1 / 10)) * cos (real i * (37 / 1000))) * (humanizeAmount * 30) / 100"

text \<open>
  The loop over the frames; its state is the frame index, \<open>currentCorrectedMidi\<close> and
  \<open>initialized\<close>.
\<close>

fun target_loop :: "real \<Rightarrow> real \<Rightarrow> nat \<Rightarrow> real \<Rightarrow> bool \<Rightarrow> PitchFrame list \<Rightarrow> real list" where
  "target_loop alpha humanizeAmount i cur ini [] = []"
| "target_loop alpha humanizeAmount i cur ini (frame # rest) =
     (if \<not> voiced frame \<or> frequency frame \<le> 0
      then 0 # target_loop alpha humanizeAmount (i + 1) cur ini rest
      else (let originalMidi = frequencyToMidi (frequency frame);
                targetMidi = of_int (round originalMidi);
                cur0 = (if \<not> ini then targetMidi else cur);
                cur1 = cur0 + alpha * (targetMidi - cur0);
                humanizedMidi =
                  (if 0 < humanizeAmount
                   then cur1 + (vibrato humanizeAmount (time frame) + drift humanizeAmount i)
                   else cur1)
            in midiToFrequency humanizedMidi
                 # target_loop alpha humanizeAmount (i + 1) cur1 True rest))"

definition computeTargetPitches ::
  "PitchFrame list \<Rightarrow> real \<Rightarrow> nat \<Rightarrow> CorrectionParams \<Rightarrow> real list" where
  "computeTargetPitches fs sr hop params =
     (let hopDuration = real hop / sr;
          retuneTimeSec = retuneSpeed params / 1000;
          alpha = (if 0 < retuneTimeSec then 1 - exp (- hopDuration / retuneTimeSec) else 1);
          humanizeAmount = humanize params / 100
      in target_loop alpha humanizeAmount 0 0 False fs)"

subsection \<open>Pitch marks\<close>

text \<open>
  The position of the largest magnitude among the samples \<open>lo, \<dots>, hi - 1\<close>, the first one
  on a tie, and \<open>start\<close> when there is none. Both scans of \<open>findPitchMarks\<close> have this shape.
\<close>

definition peak_step :: "real list \<Rightarrow> int \<times> jsnum \<Rightarrow> int \<Rightarrow> int \<times> jsnum" where
  "peak_step signal b j =
     (if js_lt (snd b) (js_abs (sample signal j)) then (j, js_abs (sample signal j)) else b)"

definition peak :: "real list \<Rightarrow> int \<Rightarrow> int \<Rightarrow> int \<Rightarrow> int" where
  "peak signal start lo hi = fst (foldl (peak_step signal) (start, NInf) [lo..hi - 1])"

text \<open>
  The inner loop that places marks one period apart. With a period that is not positive
  the next mark does not advance: a partial function again.
\<close>

partial_function (option) mark_loop ::
  "real list \<Rightarrow> int \<Rightarrow> int \<Rightarrow> int \<Rightarrow> int list \<Rightarrow> int list option" where
  "mark_loop signal period frameEnd nextMark marks =
     (if nextMark < frameEnd \<and> nextMark < int (length signal)
      then (let searchRadius = period div 4;
                bestPos = peak signal nextMark (max 0 (nextMark - searchRadius))
                            (min (int (length signal)) (nextMark + searchRadius))
            in mark_loop signal period frameEnd (bestPos + period) (marks @ [bestPos]))
      else Some marks)"

fun marks_loop ::
  "real list \<Rightarrow> real \<Rightarrow> nat \<Rightarrow> nat \<Rightarrow> PitchFrame list \<Rightarrow> int list \<Rightarrow> int list option" where
  "marks_loop signal sr hop i [] marks = Some marks"
| "marks_loop signal sr hop i (frame # rest) marks =
     (if \<not> voiced frame \<or> frequency frame \<le> 0 then marks_loop signal sr hop (i + 1) rest marks
      else (let period = round (sr / frequency frame);
                frameStart = int (i * hop);
                frameEnd = min (frameStart + int hop) (int (length signal));
                marks1 = (if marks = []
                          then [peak signal frameStart frameStart
                                  (min (frameStart + period) (int (length signal)))]
                          else marks);
                lastMark = last marks1
            in if lastMark + period < frameEnd + period
               then (case mark_loop signal period frameEnd (lastMark + period) marks1 of
                       None \<Rightarrow> None
                     | Some marks2 \<Rightarrow> marks_loop signal sr hop (i + 1) rest marks2)
               else marks_loop signal sr hop (i + 1) rest marks1))"

definition findPitchMarks ::
  "real list \<Rightarrow> PitchFrame list \<Rightarrow> real \<Rightarrow> nat \<Rightarrow> int list option" where
  "findPitchMarks signal fs sr hop = marks_loop signal sr hop 0 fs []"

subsection \<open>PSOLA resynthesis\<close>

definition getFrameIndex :: "nat \<Rightarrow> nat \<Rightarrow> real \<Rightarrow> int" where
  "getFrameIndex numFrames hop samplePos =
     min (int numFrames - 1) (max 0 \<lfloor>samplePos / real hop\<rfloor>)"

text \<open>A read of an ordinary array: \<open>None\<close> is \<open>undefined\<close>.\<close>

definition lookup :: "'a list \<Rightarrow> int \<Rightarrow> 'a option" where
  "lookup xs i = (if 0 \<le> i \<and> i < int (length xs) then Some (xs ! nat i) else None)"

text \<open>
  The output marks. The position advances by the hop size or by the target period; the
  loop is a partial function, since an increment that is not positive would not end it.
\<close>

partial_function (option) output_marks_loop ::
  "nat \<Rightarrow> nat \<Rightarrow> real list \<Rightarrow> real \<Rightarrow> nat \<Rightarrow> real \<Rightarrow> int list \<Rightarrow> int list option" where
  "output_marks_loop len numFrames targetFreqs sr hop pos outputMarks =
     (if pos < real len
      then (case lookup targetFreqs (getFrameIndex numFrames hop pos) of
              None \<Rightarrow>
                output_marks_loop len numFrames targetFreqs sr hop (pos + real hop) outputMarks
            | Some targetFreq \<Rightarrow>
                if targetFreq = 0 \<or> targetFreq \<le> 0
                then output_marks_loop len numFrames targetFreqs sr hop (pos + real hop)
                       outputMarks
                else (let targetPeriod = sr / targetFreq;
                          pos1 = pos + targetPeriod
                      in output_marks_loop len numFrames targetFreqs sr hop pos1
                           (if pos1 < real len then outputMarks @ [round pos1]
                            else outputMarks)))
      else Some outputMarks)"

text \<open>The scan for the nearest input mark, from index \<open>j\<close> on, with its early exit.\<close>

record nearest =
  minDist :: int
  nearestInputMark :: int
  markIdx :: nat

function nearest_scan :: "int list \<Rightarrow> int \<Rightarrow> nat \<Rightarrow> nearest \<Rightarrow> nearest" where
  "nearest_scan pitchMarks outPos j s =
     (if j < length pitchMarks
      then (let dist = \<bar>outPos - pitchMarks ! j\<bar>
            in if dist < minDist s
               then nearest_scan pitchMarks outPos (j + 1)
                      \<lparr>minDist = dist, nearestInputMark = pitchMarks ! j, markIdx = j\<rparr>
               else if minDist s < dist then s
               else nearest_scan pitchMarks outPos (j + 1) s)
      else s)"
  by pat_completeness auto
termination
  by (relation "measure (\<lambda>(pitchMarks, outPos, j, s). length pitchMarks - j)") auto

declare nearest_scan.simps [simp del]

record psola_state =
  "output" :: "real list"
  envelope :: "real list"
  inputMarkIdx :: nat

definition hann :: "real \<Rightarrow> real" where
  "hann t = (1 / 2) * (1 - cos (2 * pi * t))"

definition grain_sample ::
  "real list \<Rightarrow> int \<Rightarrow> int \<Rightarrow> int \<Rightarrow> psola_state \<Rightarrow> int \<Rightarrow> psola_state" where
  "grain_sample signal inMark outPos grainSize s j =
     (let inIdx = inMark + j;
          outIdx = outPos + j;
          halfGrain = real_of_int grainSize / 2
      in if inIdx < 0 \<or> int (length signal) \<le> inIdx then s
         else if outIdx < 0 \<or> int (length signal) \<le> outIdx then s
         else (let t = (real_of_int j + halfGrain) / real_of_int grainSize;
                   window = hann t
               in s\<lparr>output := (output s)[nat outIdx :=
                                   output s ! nat outIdx + signal ! nat inIdx * window],
                     envelope := (envelope s)[nat outIdx := envelope s ! nat outIdx + window]\<rparr>))"

definition place_grain ::
  "real list \<Rightarrow> int list \<Rightarrow> PitchFrame list \<Rightarrow> real \<Rightarrow> nat \<Rightarrow> psola_state \<Rightarrow> int
     \<Rightarrow> psola_state" where
  "place_grain signal pitchMarks fs sr hop s outPos =
     (let found = nearest_scan pitchMarks outPos (inputMarkIdx s)
                    \<lparr>minDist = \<bar>outPos - pitchMarks ! 0\<bar>, nearestInputMark = pitchMarks ! 0,
                     markIdx = inputMarkIdx s\<rparr>;
          s1 = s\<lparr>inputMarkIdx := markIdx found\<rparr>;
          frameIdx = getFrameIndex (length fs) hop (real_of_int (nearestInputMark found))
      in case lookup fs frameIdx of
           None \<Rightarrow> s1
         | Some frame \<Rightarrow>
             if frequency frame = 0 \<or> frequency frame \<le> 0 then s1
             else (let origPeriod = round (sr / frequency frame);
                       grainSize = origPeriod * 2;
                       halfGrain = real_of_int grainSize / 2
                   in foldl (grain_sample signal (nearestInputMark found) outPos grainSize) s1
                        [- \<lfloor>halfGrain\<rfloor> .. \<lceil>halfGrain\<rceil> - 1]))"

definition normalize_sample :: "real list \<Rightarrow> real list \<Rightarrow> real list \<Rightarrow> nat \<Rightarrow> real list" where
  "normalize_sample signal env out i =
     (if 1 / 1000 < env ! i then out[i := out ! i / env ! i] else out[i := signal ! i])"

definition psolaShift ::
  "real list \<Rightarrow> int list \<Rightarrow> PitchFrame list \<Rightarrow> real list \<Rightarrow> real \<Rightarrow> nat \<Rightarrow> real list option" where
  "psolaShift signal pitchMarks fs targetFreqs sr hop =
     (if length pitchMarks < 2 then Some signal
      else (case output_marks_loop (length signal) (length fs) targetFreqs sr hop
                   (real_of_int (pitchMarks ! 0)) [pitchMarks ! 0] of
              None \<Rightarrow> None
            | Some outputMarks \<Rightarrow>
                (let s = foldl (place_grain signal pitchMarks fs sr hop)
                           \<lparr>output = replicate (length signal) 0,
                            envelope = replicate (length signal) 0, inputMarkIdx = 0\<rparr>
                           outputMarks
                 in Some (foldl (normalize_sample signal (envelope s)) (output s)
                            [0..<length (output s)]))))"

subsection \<open>The correction pipeline\<close>

definition correctPitch :: "real list \<Rightarrow> real \<Rightarrow> CorrectionParams \<Rightarrow> real list option" where
  "correctPitch inputSignal sr params =
     (if tuneAmount params \<le> 0 then Some inputSignal
      else (case detectPitch inputSignal sr 256 2048 (15 / 100) 60 1200 of
              None \<Rightarrow> None
            | Some pitchTrack \<Rightarrow>
                (let smoothedFrames = smooth_fresh (frames pitchTrack) 5;
                     targetFreqs = computeTargetPitches smoothedFrames sr 256 params
                 in case findPitchMarks inputSignal smoothedFrames sr 256 of
                      None \<Rightarrow> None
                    | Some pitchMarks \<Rightarrow>
                        (case psolaShift inputSignal pitchMarks smoothedFrames targetFreqs sr 256 of
                           None \<Rightarrow> None
                         | Some corrected \<Rightarrow>
                             (let wetAmount = tuneAmount params / 100;
                                  dryAmount = 1 - wetAmount
                              in Some (map (\<lambda>i. corrected ! i * wetAmount
                                                  + inputSignal ! i * dryAmount)
                                         [0..<length inputSignal]))))))"

definition hardTune :: "real list \<Rightarrow> real \<Rightarrow> real list option" where
  "hardTune inputSignal sr =
     correctPitch inputSignal sr \<lparr>retuneSpeed = 0, humanize = 0, tuneAmount = 100\<rparr>"

subsection \<open>Notions used in the statements\<close>

text \<open>The number of window starts \<open>center, center + hop, \<dots>\<close> that pass the loop test.\<close>

definition frame_count :: "nat \<Rightarrow> nat \<Rightarrow> nat \<Rightarrow> nat \<Rightarrow> nat" where
  "frame_count len windowSize hop center =
     (if center + windowSize < len then (len - windowSize - center - 1) div hop + 1 else 0)"

text \<open>The values a silent window produces: zero, or \<open>NaN\<close>.\<close>

definition zero_or_nan :: "jsnum \<Rightarrow> bool" where
  "zero_or_nan x = (x = Fin 0 \<or> x = NaN)"

text \<open>The store after the first \<open>k\<close> frames of the track have been processed.\<close>

abbreviation smooth_upto :: "ref list \<Rightarrow> nat \<Rightarrow> store \<Rightarrow> nat \<Rightarrow> store" where
  "smooth_upto fs w st k \<equiv> foldl (smooth_frame fs w) st [0..<k]"

text \<open>
  The voiced frequencies in the window of \<open>\<plusminus>halfWin\<close> frames around frame \<open>i\<close> of a frame
  sequence, and a voiced frame of a given frequency for the examples.
\<close>

definition window_freqs :: "PitchFrame list \<Rightarrow> nat \<Rightarrow> nat \<Rightarrow> real list" where
  "window_freqs work halfWin i =
     map frequency (filter voiced
       (map (\<lambda>j. work ! j) [i - halfWin ..< min (length work - 1) (i + halfWin) + 1]))"

definition tone :: "real \<Rightarrow> PitchFrame" where
  "tone f = \<lparr>time = 0, frequency = f, confidence = Fin 1, midiNote = 0, centsOff = 0,
             noteName = ''-'', voiced = True\<rparr>"

text \<open>Marks in strictly increasing order, each one an index into a signal of the given length.\<close>

definition good_marks :: "nat \<Rightarrow> int list \<Rightarrow> bool" where
  "good_marks len marks = (sorted_wrt (<) marks \<and> (\<forall>m\<in>set marks. 0 \<le> m \<and> m < int len))"

text \<open>A square wave of period 2, for the worked example of the marks.\<close>

definition sq :: "real list" where
  "sq = [1, - 1, 1, - 1, 1, - 1, 1, - 1, 1, - 1, 1, - 1, 1, - 1, 1, - 1]"

section \<open>Properties\<close>

subsection \<open>MIDI round trip\<close>

lemma midi_roundtrip_exact:
  assumes "0 < f"
  shows "midiToFrequency (frequencyToMidi f) = f"
proof -
  have "midiToFrequency (frequencyToMidi f) = 440 * 2 powr (log 2 (f / 440))"
    using assms by (simp add: midiToFrequency_def frequencyToMidi_def)
  also have "\<dots> = 440 * (f / 440)"
    using assms by simp
  finally show ?thesis by simp
qed

lemma frequencyToMidi_midiToFrequency: "frequencyToMidi (midiToFrequency m) = m"
proof -
  have pos: "0 < midiToFrequency m"
    by (simp add: midiToFrequency_def)
  have "log 2 (midiToFrequency m / 440) = (m - 69) / 12"
    by (simp add: midiToFrequency_def)
  then show ?thesis
    using pos by (simp add: frequencyToMidi_def)
qed

text \<open>
  C10. For every frequency \<open>f > 0\<close>, converting to a MIDI number and back recovers \<open>f\<close>
  within a relative error of \<open>10\<^sup>-\<^sup>6\<close>. In exact arithmetic the round trip is the
  identity; the rounding of \<open>Math.log2\<close> and \<open>Math.pow\<close> is outside the embedding.
\<close>

theorem midi_roundtrip:
  "0 < f \<Longrightarrow> \<bar>midiToFrequency (frequencyToMidi f) - f\<bar> \<le> f / 1000000"
  by (simp add: midi_roundtrip_exact)

theorem midi_roundtrip_witness:
  "(0::real) < 440 \<and> \<bar>midiToFrequency (frequencyToMidi 440) - 440\<bar> \<le> 440 / 1000000"
  using midi_roundtrip [of 440] by simp

subsection \<open>Frames of the detector\<close>

lemma frame_count_step:
  assumes "0 < hop" "center + windowSize < len"
  shows "frame_count len windowSize hop center = Suc (frame_count len windowSize hop (center + hop))"
proof (cases "center + hop + windowSize < len")
  case True
  define x where "x = len - windowSize - (center + hop) - 1"
  have e: "len - windowSize - center - 1 = x + hop"
    using True by (simp add: x_def)
  have "(x + hop) div hop = x div hop + 1"
    using assms(1) by simp
  then have "(len - windowSize - center - 1) div hop = x div hop + 1"
    by (simp only: e)
  then show ?thesis
    using True assms(2) by (simp add: frame_count_def x_def)
next
  case False
  then have "len - windowSize - center - 1 < hop"
    using assms by simp
  then show ?thesis
    using False assms by (simp add: frame_count_def)
qed

lemma detect_loop_closed:
  assumes "0 < hop"
  shows "detect_loop signal sr hop windowSize threshold minFreq maxFreq center acc =
           Some (acc @ map (\<lambda>k. analyse_frame signal sr windowSize threshold minFreq maxFreq (center + k * hop))
                         [0..<frame_count (length signal) windowSize hop center])"
proof (induction "length signal - center" arbitrary: center acc rule: less_induct)
  case less
  show ?case
  proof (cases "center + windowSize < length signal")
    case False
    then show ?thesis
      by (subst detect_loop.simps) (simp add: frame_count_def)
  next
    case True
    let ?a = "analyse_frame signal sr windowSize threshold minFreq maxFreq"
    have dec: "length signal - (center + hop) < length signal - center"
      using True assms by simp
    have "detect_loop signal sr hop windowSize threshold minFreq maxFreq center acc =
            detect_loop signal sr hop windowSize threshold minFreq maxFreq (center + hop) (acc @ [?a center])"
      using True by (subst detect_loop.simps) simp
    also have "\<dots> = Some ((acc @ [?a center]) @ map (\<lambda>k. ?a (center + hop + k * hop))
                         [0..<frame_count (length signal) windowSize hop (center + hop)])"
      using less [OF dec] by simp
    also have "(acc @ [?a center]) @ map (\<lambda>k. ?a (center + hop + k * hop))
                         [0..<frame_count (length signal) windowSize hop (center + hop)]
          = acc @ map (\<lambda>k. ?a (center + k * hop)) [0..<frame_count (length signal) windowSize hop center]"
      unfolding frame_count_step [OF assms True]
      by (simp add: upt_conv_Cons map_Suc_upt [symmetric] del: upt_Suc) (simp add: add.assoc)
    finally show ?thesis .
  qed
qed

lemma foldl_invariant:
  assumes "P a" "\<And>b x. P b \<Longrightarrow> x \<in> set xs \<Longrightarrow> P (f b x)"
  shows "P (foldl f a xs)"
  using assms by (induction xs arbitrary: a) simp_all

lemma zero_or_nan_zero: "zero_or_nan (Fin 0)"
  by (simp add: zero_or_nan_def)

lemma zero_or_nan_sample:
  assumes "\<forall>x\<in>set signal. x = 0"
  shows "zero_or_nan (sample signal i)"
  using assms by (auto simp: sample_def zero_or_nan_def)

lemma zero_or_nan_ops:
  assumes "zero_or_nan a" "zero_or_nan b"
  shows "zero_or_nan (js_sub a b)" "zero_or_nan (js_mul a b)" "zero_or_nan (js_add a b)"
  using assms by (auto simp: zero_or_nan_def js_sub_def)

lemma zero_or_nan_quotient:
  assumes "zero_or_nan d" "zero_or_nan rs"
  shows "js_div (js_mul d (Fin t)) rs = NaN"
  using assms by (auto simp: zero_or_nan_def)

lemma difference_silent:
  assumes "\<forall>x\<in>set signal. x = 0"
  shows "zero_or_nan (difference signal center halfWindow tau)"
  unfolding difference_def
proof (rule foldl_invariant)
  show "zero_or_nan (Fin 0)"
    by (simp add: zero_or_nan_def)
next
  fix b j
  assume "zero_or_nan b"
  then show "zero_or_nan
          (let delta = js_sub (sample signal (int (center + j)))
                         (sample signal (int (center + j + tau)))
           in js_add b (js_mul delta delta))"
    unfolding Let_def by (intro zero_or_nan_ops zero_or_nan_sample assms)
qed

lemma entry_diff_silent:
  assumes "\<forall>x\<in>set signal. x = 0"
  shows "zero_or_nan (entry (diff_array signal center halfWindow) i)"
proof (cases "0 \<le> i \<and> i < int halfWindow")
  case True
  then have "entry (diff_array signal center halfWindow) i
               = difference signal center halfWindow (nat i)"
    by (simp add: entry_def diff_array_def nat_less_iff)
  then show ?thesis
    using difference_silent [OF assms] by simp
next
  case False
  then show ?thesis
    by (auto simp: entry_def diff_array_def zero_or_nan_def)
qed

lemma cmndf_step_simps:
  "fst (cmndf_step diff s tau) = js_add (fst s) (entry diff (int tau))"
  "snd (cmndf_step diff s tau) =
     (snd s)[tau := js_div (js_mul (entry diff (int tau)) (Fin (real tau)))
                      (js_add (fst s) (entry diff (int tau)))]"
  by (simp_all add: cmndf_step_def Let_def)

lemma cmndf_fold_silent:
  assumes d: "\<And>i. zero_or_nan (entry diff i)"
    and "zero_or_nan (fst s)" "\<forall>t. 1 \<le> t \<and> t < a \<and> t < length (snd s) \<longrightarrow> snd s ! t = NaN"
  shows "\<forall>t. 1 \<le> t \<and> t < a + n \<and> t < length (snd s) \<longrightarrow>
           snd (foldl (cmndf_step diff) s [a..<a + n]) ! t = NaN"
    and "length (snd (foldl (cmndf_step diff) s [a..<a + n])) = length (snd s)"
    and "zero_or_nan (fst (foldl (cmndf_step diff) s [a..<a + n]))"
proof (induction n)
  case 0
  {
    case 1 show ?case using assms by simp
  next
    case 2 show ?case by simp
  next
    case 3 show ?case using assms by simp
  }
next
  case (Suc n)
  let ?s = "foldl (cmndf_step diff) s [a..<a + n]"
  have step: "foldl (cmndf_step diff) s [a..<a + Suc n] = cmndf_step diff ?s (a + n)"
    by simp
  have rs: "zero_or_nan (js_add (fst ?s) (entry diff (int (a + n))))"
    by (intro zero_or_nan_ops Suc d)
  {
    case 1
    show ?case
      unfolding step cmndf_step_simps
      using Suc(1) Suc(2) zero_or_nan_quotient [OF d rs]
      by (auto simp: nth_list_update less_Suc_eq)
  next
    case 2
    show ?case unfolding step cmndf_step_simps using Suc(2) by simp
  next
    case 3
    show ?case unfolding step cmndf_step_simps using rs by simp
  }
qed

lemma length_cmndf_array:
  assumes "\<forall>x\<in>set signal. x = 0"
  shows "length (cmndf_array (diff_array signal center halfWindow) halfWindow) = halfWindow"
proof (cases halfWindow)
  case 0
  then show ?thesis by (simp add: cmndf_array_def)
next
  case (Suc k)
  then have hw: "[1..<halfWindow] = [1..<1 + k]" by simp
  show ?thesis
    unfolding cmndf_array_def hw
    by (subst cmndf_fold_silent(2))
       (simp_all add: entry_diff_silent [OF assms] zero_or_nan_zero Suc)
qed

lemma entry_cmndf_silent:
  assumes "\<forall>x\<in>set signal. x = 0" "1 \<le> tau"
  shows "entry (cmndf_array (diff_array signal center halfWindow) halfWindow) tau = NaN"
proof (cases "tau < int halfWindow")
  case False
  then show ?thesis
    by (simp add: entry_def length_cmndf_array [OF assms(1)])
next
  case True
  then obtain k where k: "halfWindow = Suc k"
    using assms(2) by (cases halfWindow) auto
  have t: "1 \<le> nat tau" "nat tau < 1 + k"
    using True assms(2) k by auto
  have "\<forall>t. 1 \<le> t \<and> t < 1 + k \<and> t < length (snd (Fin 0, (replicate halfWindow (Fin 0))[0 := Fin 1])) \<longrightarrow>
           snd (foldl (cmndf_step (diff_array signal center halfWindow))
                  (Fin 0, (replicate halfWindow (Fin 0))[0 := Fin 1]) [1..<1 + k]) ! t = NaN"
    by (rule cmndf_fold_silent(1))
       (simp_all add: entry_diff_silent [OF assms(1)] zero_or_nan_zero)
  then have "cmndf_array (diff_array signal center halfWindow) halfWindow ! nat tau = NaN"
    using t k by (simp add: cmndf_array_def)
  then show ?thesis
    using True assms(2) by (simp add: entry_def length_cmndf_array [OF assms(1)])
qed

lemma threshold_search_no_dip:
  assumes "\<forall>tau\<in>set taus. \<not> js_lt (entry cmndf tau) (Fin threshold)"
  shows "threshold_search cmndf threshold searchMax taus = (- 1, Fin 1)"
  using assms by (induction taus) simp_all

lemma global_min_unchanged:
  assumes "\<forall>tau\<in>set taus. \<not> js_lt (entry cmndf tau) (snd best)"
  shows "global_min cmndf taus best = best"
  unfolding global_min_def
  using assms by (induction taus) simp_all

lemma analyse_frame_silent:
  assumes zero: "\<forall>x\<in>set signal. x = 0" and thr: "threshold \<le> 1 / 2"
  shows "\<not> voiced (analyse_frame signal sr windowSize threshold minFreq maxFreq center)"
    and "frequency (analyse_frame signal sr windowSize threshold minFreq maxFreq center) = 0"
proof -
  define halfWindow where "halfWindow = windowSize div 2"
  define cmndf where "cmndf = cmndf_array (diff_array signal center halfWindow) halfWindow"
  define searchMin where "searchMin = max \<lfloor>sr / maxFreq\<rfloor> 2"
  define searchMax where "searchMax = min \<lceil>sr / minFreq\<rceil> (int halfWindow - 1)"
  have nan: "entry cmndf tau = NaN" if "tau \<in> set [searchMin..searchMax - 1]" for tau
  proof -
    have "1 \<le> tau" using that by (simp add: searchMin_def)
    then show ?thesis
      unfolding cmndf_def by (rule entry_cmndf_silent [OF zero])
  qed
  have dip: "threshold_search cmndf threshold searchMax [searchMin..searchMax - 1] = (- 1, Fin 1)"
    by (rule threshold_search_no_dip) (simp add: nan del: set_upto)
  have glob: "global_min cmndf [searchMin..searchMax - 1] (- 1, Fin 1) = (- 1, Fin 1)"
    by (rule global_min_unchanged) (simp add: nan del: set_upto)
  have v: "voiced (analyse_frame signal sr windowSize threshold minFreq maxFreq center)
             = js_lt (Fin 1) (Fin (threshold * 2))"
    unfolding analyse_frame_def Let_def
      halfWindow_def [symmetric] cmndf_def [symmetric] searchMin_def [symmetric]
      searchMax_def [symmetric] dip
    by (simp add: glob)
  show "\<not> voiced (analyse_frame signal sr windowSize threshold minFreq maxFreq center)"
    unfolding v using thr by simp
  have "frequency (analyse_frame signal sr windowSize threshold minFreq maxFreq center)
             = (if js_lt (Fin 1) (Fin (threshold * 2)) \<and> 0 < refine_tau cmndf halfWindow (- 1)
                then sr / refine_tau cmndf halfWindow (- 1) else 0)"
    unfolding analyse_frame_def Let_def
      halfWindow_def [symmetric] cmndf_def [symmetric] searchMin_def [symmetric]
      searchMax_def [symmetric] dip
    by (simp add: glob)
  then show "frequency (analyse_frame signal sr windowSize threshold minFreq maxFreq center) = 0"
    using thr by simp
qed

lemma detectPitch_closed:
  assumes "0 < hop"
  shows "detectPitch signal sr hop windowSize threshold minFreq maxFreq =
           Some \<lparr>frames = map (\<lambda>k. analyse_frame signal sr windowSize threshold minFreq maxFreq (k * hop))
                             [0..<frame_count (length signal) windowSize hop 0],
                 sampleRate = sr, hopSize = hop,
                 medianPitch = median_pitch
                   (map (\<lambda>k. analyse_frame signal sr windowSize threshold minFreq maxFreq (k * hop))
                             [0..<frame_count (length signal) windowSize hop 0])\<rparr>"
  by (simp add: detectPitch_def detect_loop_closed [OF assms])

lemma median_pitch_unvoiced:
  assumes "\<forall>f\<in>set fs. \<not> voiced f"
  shows "median_pitch fs = 0"
proof -
  have "filter voiced fs = []"
    using assms by (simp add: filter_empty_conv)
  then show ?thesis
    by (simp add: median_pitch_def)
qed

text \<open>
  C2, as amended. With a positive hop size \<open>detectPitch\<close> returns, and the number of its
  frames is \<open>\<lfloor>(length - windowSize - 1) / hopSize\<rfloor> + 1\<close> for a signal longer than the
  window and zero otherwise: the loop test \<open>center + windowSize < signal.length\<close> is strict.
  A signal no longer than the window gives no frame and the median pitch 0.
\<close>

theorem detectPitch_frame_count:
  assumes "0 < hop"
  shows "\<exists>track. detectPitch signal sr hop windowSize threshold minFreq maxFreq = Some track
           \<and> length (frames track) =
               (if windowSize < length signal
                then (length signal - windowSize - 1) div hop + 1 else 0)
           \<and> (length signal \<le> windowSize \<longrightarrow> frames track = [] \<and> medianPitch track = 0)"
  by (simp add: detectPitch_closed [OF assms] frame_count_def median_pitch_def)

theorem detectPitch_frame_count_witness:
  "(0::nat) < 256 \<and>
   (\<exists>track. detectPitch (replicate 2305 0) 44100 256 2048 (15 / 100) 60 1200 = Some track
      \<and> length (frames track) = 2)"
  using detectPitch_frame_count [of 256 "replicate 2305 0" 44100 2048 "15 / 100" 60 1200]
  by (simp add: numeral_2_eq_2)

text \<open>
  The count as first stated, \<open>\<lfloor>(length - windowSize) / hopSize\<rfloor> + 1\<close> for a signal at
  least as long as the window, fails for a signal of exactly 2048 samples: no frame, not one.
\<close>

theorem detectPitch_frame_count_counterexample:
  "2048 \<le> length (replicate 2048 (0::real)) \<and>
   map_option (\<lambda>track. length (frames track))
     (detectPitch (replicate 2048 0) 44100 256 2048 (15 / 100) 60 1200) = Some 0 \<and>
   (0::nat) \<noteq> (length (replicate 2048 (0::real)) - 2048) div 256 + 1"
  by (simp add: detectPitch_def detect_loop.simps)

text \<open>
  C5. For an all-zero signal of any length and a positive sample rate, every frame of the
  track is unvoiced with frequency 0, and the median pitch is 0: the normalised difference
  is \<open>0 / 0 = NaN\<close> at every lag, and no comparison with \<open>NaN\<close> finds a dip. The
  threshold is at most 0.5 (the default is 0.15).
\<close>

theorem detectPitch_silence:
  assumes "\<forall>x\<in>set signal. x = 0" "0 < sr" "0 < hop" "threshold \<le> 1 / 2"
    "0 < minFreq" "0 < maxFreq"
  shows "\<exists>track. detectPitch signal sr hop windowSize threshold minFreq maxFreq = Some track
           \<and> (\<forall>f\<in>set (frames track). \<not> voiced f \<and> frequency f = 0)
           \<and> medianPitch track = 0"
proof -
  let ?fs = "map (\<lambda>k. analyse_frame signal sr windowSize threshold minFreq maxFreq (k * hop))
               [0..<frame_count (length signal) windowSize hop 0]"
  have fs: "\<forall>f\<in>set ?fs. \<not> voiced f \<and> frequency f = 0"
    using analyse_frame_silent [OF assms(1) assms(4)] by auto
  then have "median_pitch ?fs = 0"
    by (intro median_pitch_unvoiced) blast
  then show ?thesis
    using fs by (simp add: detectPitch_closed [OF assms(3)])
qed

theorem detectPitch_silence_witness:
  "\<exists>track. detectPitch (replicate 3000 0) 44100 256 2048 (15 / 100) 60 1200 = Some track
      \<and> length (frames track) = 4
      \<and> (\<forall>f\<in>set (frames track). \<not> voiced f \<and> frequency f = 0)
      \<and> medianPitch track = 0"
proof -
  have len: "\<And>track. detectPitch (replicate 3000 0) 44100 256 2048 (15 / 100) 60 1200 = Some track
          \<Longrightarrow> length (frames track) = 4"
    by (auto simp: detectPitch_closed frame_count_def)
  show ?thesis
    using detectPitch_silence [of "replicate 3000 0" 44100 256 "15 / 100" 60 1200 2048] len
    by auto
qed

subsection \<open>Smoothing\<close>

lemma smooth_frame_other:
  assumes "r \<noteq> fs ! i"
  shows "smooth_frame fs w st i r = st r"
  using assms by (simp add: smooth_frame_def Let_def)

lemma rederive_fields:
  "time (rederive fr f) = time fr" "confidence (rederive fr f) = confidence fr"
  "voiced (rederive fr f) = voiced fr" "frequency (rederive fr f) = f"
  by (simp_all add: rederive_def Let_def)

lemma smooth_frame_fields:
  "time (smooth_frame fs w st i r) = time (st r)"
  "confidence (smooth_frame fs w st i r) = confidence (st r)"
  "voiced (smooth_frame fs w st i r) = voiced (st r)"
  by (simp_all add: smooth_frame_def Let_def rederive_fields)

lemma smooth_frame_unvoiced:
  assumes "\<not> voiced (st r)"
  shows "smooth_frame fs w st i r = st r"
  using assms by (auto simp: smooth_frame_def Let_def)

lemma smooth_upto_fields:
  "time (smooth_upto fs w st k r) = time (st r)
   \<and> confidence (smooth_upto fs w st k r) = confidence (st r)
   \<and> voiced (smooth_upto fs w st k r) = voiced (st r)"
  by (induction k) (simp_all add: smooth_frame_fields)

lemma smooth_upto_unvoiced:
  assumes "\<not> voiced (st r)"
  shows "smooth_upto fs w st k r = st r"
proof (induction k)
  case 0
  show ?case by simp
next
  case (Suc k)
  have "\<not> voiced (smooth_upto fs w st k r)"
    using assms smooth_upto_fields [of fs w st k r] by simp
  then show ?case
    using Suc by (simp add: smooth_frame_unvoiced)
qed

lemma smooth_upto_untouched:
  assumes "\<forall>j<k. fs ! j \<noteq> r"
  shows "smooth_upto fs w st k r = st r"
  using assms
proof (induction k)
  case 0
  show ?case by simp
next
  case (Suc k)
  then have "smooth_upto fs w st k r = st r" "r \<noteq> fs ! k"
    by auto
  then show ?case
    by (simp add: smooth_frame_other)
qed

lemma smooth_upto_settled:
  assumes "distinct fs" "i < k" "k \<le> length fs"
  shows "smooth_upto fs w st k (fs ! i) = smooth_upto fs w st (Suc i) (fs ! i)"
  using assms(2,3)
proof (induction k)
  case 0
  then show ?case by simp
next
  case (Suc k)
  show ?case
  proof (cases "i = k")
    case True
    then show ?thesis by simp
  next
    case False
    then have ik: "i < k" "k \<le> length fs" "k < length fs"
      using Suc.prems by auto
    have "fs ! i \<noteq> fs ! k"
      using assms(1) ik by (simp add: nth_eq_iff_index_eq)
    then have "smooth_upto fs w st (Suc k) (fs ! i) = smooth_upto fs w st k (fs ! i)"
      by (simp add: smooth_frame_other)
    then show ?thesis
      using Suc.IH ik by simp
  qed
qed

lemma smooth_upto_work:
  assumes "distinct fs" "i \<le> length fs" "j < length fs"
  shows "smooth_upto fs w st i (fs ! j) =
           (take i (map (smooth_upto fs w st (length fs)) fs) @ drop i (map st fs)) ! j"
proof (cases "j < i")
  case True
  have "smooth_upto fs w st i (fs ! j) = smooth_upto fs w st (Suc j) (fs ! j)"
    using smooth_upto_settled [OF assms(1) True assms(2)] .
  also have "\<dots> = smooth_upto fs w st (length fs) (fs ! j)"
    using smooth_upto_settled [OF assms(1) assms(3) order_refl] by simp
  finally show ?thesis
    using True assms by (simp add: nth_append)
next
  case False
  have "\<forall>k<i. fs ! k \<noteq> fs ! j"
    using False assms by (auto simp: nth_eq_iff_index_eq)
  then have "smooth_upto fs w st i (fs ! j) = st (fs ! j)"
    by (rule smooth_upto_untouched)
  then show ?thesis
    using False assms by (simp add: nth_append min_def)
qed

lemma voiced_freqs_cong:
  assumes "\<forall>j\<in>set js. f j = g j"
  shows "map (\<lambda>j. frequency (f j)) (filter (\<lambda>j. voiced (f j)) js) =
           map frequency (filter voiced (map g js))"
  using assms by (induction js) simp_all

lemma neighborhood_work:
  assumes "distinct fs" "i < length fs"
  shows "neighborhood (smooth_upto fs w st i) fs h i =
           window_freqs (take i (map (smooth_upto fs w st (length fs)) fs) @ drop i (map st fs)) h i"
proof -
  let ?work = "take i (map (smooth_upto fs w st (length fs)) fs) @ drop i (map st fs)"
  have len: "length ?work = length fs"
    using assms(2) by simp
  have "\<forall>j\<in>set [i - h ..< min (length fs - 1) (i + h) + 1].
          smooth_upto fs w st i (fs ! j) = ?work ! j"
    using assms by (auto intro!: smooth_upto_work)
  then show ?thesis
    unfolding neighborhood_def window_freqs_def len
    by (rule voiced_freqs_cong)
qed

lemma smooth_frame_at:
  "smooth_frame fs w st i (fs ! i) =
     (if voiced (st (fs ! i)) \<and> 3 \<le> length (neighborhood st fs (w div 2) i)
      then rederive (st (fs ! i))
             (octave_fix (frequency (st (fs ! i)))
                (sort (neighborhood st fs (w div 2) i)
                   ! (length (neighborhood st fs (w div 2) i) div 2)))
      else st (fs ! i))"
  by (simp add: smooth_frame_def Let_def)

lemma octave_fix_nonzero:
  assumes "m \<noteq> 0"
  shows "octave_fix f m =
           (if 3 / 2 < f / m then f / 2 else if f / m < 67 / 100 then f * 2 else f)"
  using assms by (simp add: octave_fix_def Let_def)

lemma smoothPitchTrack_nth:
  assumes "distinct fs" "i < length fs"
  shows "(let res = smoothPitchTrack st fs w;
              inp = map st fs;
              outp = map (snd res) (fst res);
              work = take i outp @ drop i inp;
              nb = window_freqs work (w div 2) i
          in length outp = length inp
           \<and> outp ! i =
               (if voiced (inp ! i) \<and> 3 \<le> length nb
                then rederive (inp ! i)
                       (octave_fix (frequency (inp ! i)) (sort nb ! (length nb div 2)))
                else inp ! i))"
proof -
  have cur: "smooth_upto fs w st i (fs ! i) = st (fs ! i)"
    using smooth_upto_work [OF assms(1) less_imp_le [OF assms(2)] assms(2), of w st] assms(2)
    by (simp add: nth_append)
  have "smooth_upto fs w st (length fs) (fs ! i) = smooth_upto fs w st (Suc i) (fs ! i)"
    using smooth_upto_settled [OF assms(1) assms(2) order_refl] .
  also have "\<dots> = smooth_frame fs w (smooth_upto fs w st i) i (fs ! i)"
    by simp
  finally show ?thesis
    unfolding smooth_frame_at cur neighborhood_work [OF assms]
    using assms(2) by (simp add: smoothPitchTrack_def Let_def)
qed

text \<open>
  C4, as amended. For a track of distinct frame objects, frame \<open>i\<close> of the result is the
  input frame unless it is voiced and at least 3 voiced frames lie in the window of
  \<open>\<plusminus>\<lfloor>medianWindowSize / 2\<rfloor>\<close> frames around it; then, with \<open>m\<close> the median of the voiced
  frequencies in that window, its frequency is the input frequency halved when
  \<open>input / m > 1.5\<close>, doubled when \<open>input / m < 0.67\<close> and unchanged otherwise
  (\<open>octave_fix\<close>; the ratio is an IEEE quotient, the last conjunct spells it out for
  \<open>m \<noteq> 0\<close>), and the MIDI note, the cents and the note name are recomputed from it
  (\<open>rederive\<close>). The window, the frame itself included, is read from the sequence
  \<open>work\<close>: the frames before \<open>i\<close> already corrected, the frames from \<open>i\<close> on as in
  the input.
\<close>

theorem smoothPitchTrack_frames:
  assumes "distinct fs" "i < length fs"
  shows "(let res = smoothPitchTrack st fs w;
              inp = map st fs;
              outp = map (snd res) (fst res);
              work = take i outp @ drop i inp;
              nb = window_freqs work (w div 2) i;
              m = sort nb ! (length nb div 2);
              f = frequency (inp ! i)
          in length outp = length inp
           \<and> outp ! i =
               (if voiced (inp ! i) \<and> 3 \<le> length nb
                then rederive (inp ! i) (octave_fix f m) else inp ! i)
           \<and> (m \<noteq> 0 \<longrightarrow>
                octave_fix f m =
                  (if 3 / 2 < f / m then f / 2 else if f / m < 67 / 100 then f * 2 else f)))"
  using smoothPitchTrack_nth [OF assms, of st w]
  by (simp add: Let_def octave_fix_nonzero)

lemma upt3: "[0..<3] = [0, 1, 2]"
  by (simp add: upt_rec)

text \<open>
  What the pass keeps, for every store and every array of frames: the returned array is the
  array of the track, the time, the confidence and the voicing of every frame keep their
  values, and a frame that is unvoiced or not in the track keeps every field.
\<close>

lemma smoothPitchTrack_kept:
  "(let res = smoothPitchTrack st fs w
    in fst res = fs
     \<and> (\<forall>r. time (snd res r) = time (st r) \<and> confidence (snd res r) = confidence (st r)
            \<and> voiced (snd res r) = voiced (st r))
     \<and> (\<forall>r. r \<notin> set fs \<or> \<not> voiced (st r) \<longrightarrow> snd res r = st r))"
proof -
  have a: "smooth_upto fs w st (length fs) r = st r" if "r \<notin> set fs \<or> \<not> voiced (st r)" for r
  proof (cases "voiced (st r)")
    case False
    then show ?thesis by (rule smooth_upto_unvoiced)
  next
    case True
    then have "r \<notin> set fs" using that by simp
    then have "\<forall>j<length fs. fs ! j \<noteq> r"
      by (auto simp: in_set_conv_nth)
    then show ?thesis by (rule smooth_upto_untouched)
  qed
  show ?thesis
    unfolding smoothPitchTrack_def Let_def fst_conv snd_conv
    using a smooth_upto_fields [of fs w st "length fs"] by blast
qed

text \<open>
  C3. The claim is that \<open>smoothPitchTrack\<close> leaves the frames of the input track unmodified:
  every field of every frame of the track has, after the call, the value it had before. The
  code does not keep it. \<open>[...track.frames]\<close> copies the array of references, so the
  returned array holds the frame objects of the track, and \<open>frames[i].frequency /= 2\<close> writes
  into them. On the track of three voiced frames at 100, 100 and 300 Hz, with the window 5,
  the returned array is the array of the same three references, and the third frame of the
  track, 300 Hz before the call, is at 150 Hz after it.
\<close>

theorem smoothPitchTrack_overwrites_input:
  "fst (smoothPitchTrack (fresh_store [tone 100, tone 100, tone 300]) [0, 1, 2] 5) = [0, 1, 2]
   \<and> frequency (fresh_store [tone 100, tone 100, tone 300] 2) = 300
   \<and> frequency (snd (smoothPitchTrack (fresh_store [tone 100, tone 100, tone 300]) [0, 1, 2] 5) 2)
       = 150"
  by (simp add: smoothPitchTrack_def upt3 smooth_frame_def neighborhood_def fresh_store_def tone_def
       octave_fix_def rederive_def Let_def js_inf_def)

theorem smoothPitchTrack_frames_witness:
  "frequency (map (snd (smoothPitchTrack (fresh_store [tone 100, tone 160, tone 290]) [0, 1, 2] 5))
               (fst (smoothPitchTrack (fresh_store [tone 100, tone 160, tone 290]) [0, 1, 2] 5)) ! 0)
     = 200"
proof -
  have nb: "window_freqs [tone 100, tone 160, tone 290] 2 0 = [100, 160, 290]"
    by (simp add: window_freqs_def upt3 tone_def)
  have d: "distinct [0, 1, 2 :: nat]" "0 < length [0, 1, 2 :: nat]"
    by simp_all
  show ?thesis
    using smoothPitchTrack_frames [OF d, of "fresh_store [tone 100, tone 160, tone 290]" 5]
    by (simp add: Let_def fresh_store_def nb rederive_def octave_fix_def) (simp add: tone_def)
qed

text \<open>
  Read from the input alone, the window of the third frame of 100, 160, 290 Hz has the
  median 160 and the ratio \<open>290 / 160 > 1.5\<close>, so the frame would be halved; the code has
  doubled the first frame by then, the median is 200, and the frame stays at 290 Hz.
\<close>

theorem smoothPitchTrack_frames_counterexample:
  "voiced (tone 290)
   \<and> window_freqs [tone 100, tone 160, tone 290] 2 2 = [100, 160, 290]
   \<and> sort [100, 160, 290 :: real] ! (length [100, 160, 290 :: real] div 2) = 160
   \<and> (3 / 2 :: real) < 290 / 160
   \<and> frequency (smooth_fresh [tone 100, tone 160, tone 290] 5 ! 2) = 290
   \<and> (290 :: real) \<noteq> 290 / 2"
  by (simp add: smooth_fresh_def smoothPitchTrack_def upt3 smooth_frame_def neighborhood_def tone_def
       octave_fix_def rederive_def Let_def js_inf_def window_freqs_def fresh_store_def)

subsection \<open>Target pitches\<close>

lemma length_target_loop: "length (target_loop a h i cur ini fs) = length fs"
  by (induction fs arbitrary: i cur ini) (simp_all add: Let_def)

lemma target_loop_humanize:
  assumes "0 < h" "k < length fs"
  shows "target_loop a h i cur ini fs ! k =
           (if \<not> voiced (fs ! k) \<or> frequency (fs ! k) \<le> 0 then 0
            else midiToFrequency
                   (frequencyToMidi (target_loop a 0 i cur ini fs ! k)
                      + (vibrato h (time (fs ! k)) + drift h (i + k))))"
  using assms(2)
proof (induction fs arbitrary: i cur ini k)
  case Nil
  then show ?case by simp
next
  case (Cons fr rest)
  show ?case
  proof (cases k)
    case 0
    then show ?thesis
      using assms(1) by (simp add: Let_def frequencyToMidi_midiToFrequency)
  next
    case (Suc k')
    then have "k' < length rest"
      using Cons.prems by simp
    then show ?thesis
      using Cons.IH [of k'] Suc by (simp add: Let_def)
  qed
qed

text \<open>
  C8. The pipeline is a function of its arguments: the source reads no random generator,
  clock or module-level variable, so parameters that agree on the three fields give the same
  result. The humanize offsets are closed forms: with \<open>humanize > 0\<close>, the target of a
  voiced frame \<open>i\<close> is, in MIDI units, the target of the run without humanize plus
  \<open>vibrato\<close> of the humanize amount and the frame's time plus \<open>drift\<close> of the humanize
  amount and the frame index; the converged pitch does not feed on the offsets.
\<close>

theorem humanize_offsets:
  assumes "0 < humanize params" "i < length fs" "0 < sr"
  shows "(\<forall>signal sr' params'. retuneSpeed params' = retuneSpeed params
              \<and> humanize params' = humanize params \<and> tuneAmount params' = tuneAmount params
            \<longrightarrow> correctPitch signal sr' params' = correctPitch signal sr' params)
       \<and> length (computeTargetPitches fs sr hop params) = length fs
       \<and> computeTargetPitches fs sr hop params ! i =
           (if \<not> voiced (fs ! i) \<or> frequency (fs ! i) \<le> 0 then 0
            else midiToFrequency
                   (frequencyToMidi (computeTargetPitches fs sr hop (params\<lparr>humanize := 0\<rparr>) ! i)
                      + (vibrato (humanize params / 100) (time (fs ! i))
                         + drift (humanize params / 100) i)))"
proof -
  have h: "0 < humanize params / 100"
    using assms(1) by simp
  have same: "params' = params"
    if "retuneSpeed params' = retuneSpeed params \<and> humanize params' = humanize params
          \<and> tuneAmount params' = tuneAmount params" for params' :: CorrectionParams
    using that by simp
  have offs: "computeTargetPitches fs sr hop params ! i =
           (if \<not> voiced (fs ! i) \<or> frequency (fs ! i) \<le> 0 then 0
            else midiToFrequency
                   (frequencyToMidi (computeTargetPitches fs sr hop (params\<lparr>humanize := 0\<rparr>) ! i)
                      + (vibrato (humanize params / 100) (time (fs ! i))
                         + drift (humanize params / 100) i)))"
    using target_loop_humanize [OF h assms(2)]
    by (simp add: computeTargetPitches_def Let_def)
  have len: "length (computeTargetPitches fs sr hop params) = length fs"
    by (simp add: computeTargetPitches_def Let_def length_target_loop)
  show ?thesis
    using same offs len by blast
qed

theorem humanize_offsets_witness:
  "computeTargetPitches [tone 440] 44100 256 \<lparr>retuneSpeed = 0, humanize = 50, tuneAmount = 100\<rparr> ! 0
     = midiToFrequency
         (frequencyToMidi
            (computeTargetPitches [tone 440] 44100 256
               \<lparr>retuneSpeed = 0, humanize = 0, tuneAmount = 100\<rparr> ! 0)
          + (vibrato (1 / 2) 0 + drift (1 / 2) 0))"
  using humanize_offsets [of "\<lparr>retuneSpeed = 0, humanize = 50, tuneAmount = 100\<rparr>" 0 "[tone 440]"
      44100 256]
  by (simp add: tone_def)

subsection \<open>Resynthesis\<close>

lemma lookup_Some_mem:
  assumes "lookup xs i = Some x"
  shows "x \<in> set xs"
  using assms by (auto simp: lookup_def split: if_splits)

lemma steps_left_decreases:
  fixes pos pos1 d bound :: real
  assumes "0 < d" "pos < bound" "pos + d \<le> pos1"
  shows "nat \<lceil>(bound - pos1) / d\<rceil> < nat \<lceil>(bound - pos) / d\<rceil>"
proof -
  have "bound - pos1 \<le> bound - pos - d"
    using assms by linarith
  then have "(bound - pos1) / d \<le> (bound - pos - d) / d"
    using assms(1) by (simp add: divide_right_mono)
  also have "\<dots> = (bound - pos) / d - 1"
    using assms(1) by (simp add: diff_divide_distrib)
  finally have "(bound - pos1) / d \<le> (bound - pos) / d - 1" .
  then have "\<lceil>(bound - pos1) / d\<rceil> \<le> \<lceil>(bound - pos) / d\<rceil> - 1"
    by (metis ceiling_diff_one ceiling_mono)
  moreover have "0 < \<lceil>(bound - pos) / d\<rceil>"
    using assms by simp
  ultimately show ?thesis
    by linarith
qed

lemma output_marks_loop_bounded:
  assumes "0 < hop" "0 < sr" "0 < M" "\<forall>t\<in>set targetFreqs. t \<le> M"
  shows "\<exists>res. output_marks_loop len numFrames targetFreqs sr hop pos outputMarks = Some res"
proof -
  define d where "d = min (real hop) (sr / M)"
  have d: "0 < d" "d \<le> real hop"
    using assms by (simp_all add: d_def)
  have per: "d \<le> sr / t" if "t \<in> set targetFreqs" "0 < t" for t
  proof -
    have "sr / M \<le> sr / t"
      using that assms by (simp add: frac_le)
    then show ?thesis
      by (simp add: d_def)
  qed
  show ?thesis
  proof (induction "nat \<lceil>(real len - pos) / d\<rceil>" arbitrary: pos outputMarks rule: less_induct)
    case less
    show ?case
    proof (cases "pos < real len")
      case False
      then show ?thesis
        by (subst output_marks_loop.simps) simp
    next
      case True
      have hopstep: "\<exists>res. output_marks_loop len numFrames targetFreqs sr hop (pos + real hop) om = Some res"
        for om
        by (rule less) (rule steps_left_decreases [OF d(1) True], use d(2) in simp)
      show ?thesis
      proof (cases "lookup targetFreqs (getFrameIndex numFrames hop pos)")
        case None
        then show ?thesis
          using True hopstep by (subst output_marks_loop.simps) simp
      next
        case (Some t)
        show ?thesis
        proof (cases "t \<le> 0")
          case True
          then show ?thesis
            using \<open>pos < real len\<close> Some hopstep by (subst output_marks_loop.simps) auto
        next
          case False
          then have "d \<le> sr / t"
            using per lookup_Some_mem [OF Some] by simp
          then have "\<exists>res. output_marks_loop len numFrames targetFreqs sr hop (pos + sr / t) om = Some res"
            for om
            by (intro less steps_left_decreases [OF d(1) True]) simp
          then show ?thesis
            using \<open>pos < real len\<close> Some False
            by (subst output_marks_loop.simps) (simp add: Let_def)
        qed
      qed
    qed
  qed
qed

lemma output_marks_loop_terminates:
  assumes "0 < hop" "0 < sr"
  shows "\<exists>res. output_marks_loop len numFrames targetFreqs sr hop pos outputMarks = Some res"
proof -
  define M where "M = Max (insert 1 (set targetFreqs))"
  have "0 < M"
    unfolding M_def by (subst Max_gr_iff) auto
  moreover have "\<forall>t\<in>set targetFreqs. t \<le> M"
    unfolding M_def by simp
  ultimately show ?thesis
    using output_marks_loop_bounded [OF assms] by blast
qed

lemma grain_sample_lengths:
  "length (output (grain_sample signal inMark outPos grainSize s j)) = length (output s)"
  "length (envelope (grain_sample signal inMark outPos grainSize s j)) = length (envelope s)"
  by (simp_all add: grain_sample_def Let_def)

lemma grain_fold_lengths:
  assumes "length (output s) = n \<and> length (envelope s) = n"
  shows "length (output (foldl (grain_sample signal m outPos g) s js)) = n
       \<and> length (envelope (foldl (grain_sample signal m outPos g) s js)) = n"
  by (rule foldl_invariant [where P = "\<lambda>s. length (output s) = n \<and> length (envelope s) = n"])
     (simp_all add: assms grain_sample_lengths)

lemma place_grain_lengths:
  assumes "length (output s) = n \<and> length (envelope s) = n"
  shows "length (output (place_grain signal pitchMarks fs sr hop s outPos)) = n
       \<and> length (envelope (place_grain signal pitchMarks fs sr hop s outPos)) = n"
proof -
  define found where "found = nearest_scan pitchMarks outPos (inputMarkIdx s)
                    \<lparr>minDist = \<bar>outPos - pitchMarks ! 0\<bar>, nearestInputMark = pitchMarks ! 0,
                     markIdx = inputMarkIdx s\<rparr>"
  define s1 where "s1 = s\<lparr>inputMarkIdx := markIdx found\<rparr>"
  have s1: "length (output s1) = n \<and> length (envelope s1) = n"
    using assms by (simp add: s1_def)
  show ?thesis
    unfolding place_grain_def Let_def found_def [symmetric] s1_def [symmetric]
    using s1 grain_fold_lengths [OF s1]
    by (simp split: option.split)
qed

lemma grains_lengths:
  "length (output (foldl (place_grain signal pitchMarks fs sr hop)
      \<lparr>output = replicate n 0, envelope = replicate n 0, inputMarkIdx = 0\<rparr> outputMarks)) = n
   \<and> length (envelope (foldl (place_grain signal pitchMarks fs sr hop)
      \<lparr>output = replicate n 0, envelope = replicate n 0, inputMarkIdx = 0\<rparr> outputMarks)) = n"
  by (rule foldl_invariant [where P = "\<lambda>s. length (output s) = n \<and> length (envelope s) = n"])
     (simp_all add: place_grain_lengths)

lemma normalize_sample_simps:
  "length (normalize_sample signal env out i) = length out"
  "j < length out \<Longrightarrow> normalize_sample signal env out i ! j =
     (if j = i then (if 1 / 1000 < env ! i then out ! i / env ! i else signal ! i) else out ! j)"
  by (simp_all add: normalize_sample_def nth_list_update)

lemma normalize_fold:
  assumes "k \<le> length out"
  shows "length (foldl (normalize_sample signal env) out [0..<k]) = length out
       \<and> (\<forall>i<length out. foldl (normalize_sample signal env) out [0..<k] ! i =
            (if i < k then (if 1 / 1000 < env ! i then out ! i / env ! i else signal ! i)
             else out ! i))"
  using assms
proof (induction k)
  case 0
  show ?case by simp
next
  case (Suc k)
  then have IH: "length (foldl (normalize_sample signal env) out [0..<k]) = length out"
    "\<forall>i<length out. foldl (normalize_sample signal env) out [0..<k] ! i =
            (if i < k then (if 1 / 1000 < env ! i then out ! i / env ! i else signal ! i)
             else out ! i)"
    by simp_all
  have k: "k < length out"
    using Suc.prems by simp
  have step: "foldl (normalize_sample signal env) out [0..<Suc k] =
          normalize_sample signal env (foldl (normalize_sample signal env) out [0..<k]) k"
    by simp
  show ?case
    unfolding step using IH k by (auto simp: normalize_sample_simps)
qed

lemma psolaShift_result:
  assumes "2 \<le> length pitchMarks" "0 < sr" "0 < hop"
  shows "\<exists>out outputMarks.
           psolaShift signal pitchMarks fs targetFreqs sr hop = Some out
         \<and> output_marks_loop (length signal) (length fs) targetFreqs sr hop
               (real_of_int (pitchMarks ! 0)) [pitchMarks ! 0] = Some outputMarks
         \<and> (let s = foldl (place_grain signal pitchMarks fs sr hop)
                       \<lparr>output = replicate (length signal) 0,
                        envelope = replicate (length signal) 0, inputMarkIdx = 0\<rparr> outputMarks
             in length out = length signal
              \<and> (\<forall>i<length signal.
                    out ! i = (if 1 / 1000 < envelope s ! i then output s ! i / envelope s ! i
                               else signal ! i)))"
proof -
  obtain outputMarks where om: "output_marks_loop (length signal) (length fs) targetFreqs sr hop
               (real_of_int (pitchMarks ! 0)) [pitchMarks ! 0] = Some outputMarks"
    using output_marks_loop_terminates [OF assms(3) assms(2)] by blast
  define s where "s = foldl (place_grain signal pitchMarks fs sr hop)
                       \<lparr>output = replicate (length signal) 0,
                        envelope = replicate (length signal) 0, inputMarkIdx = 0\<rparr> outputMarks"
  have len: "length (output s) = length signal" "length (envelope s) = length signal"
    unfolding s_def using grains_lengths [of signal pitchMarks fs sr hop "length signal" outputMarks]
    by simp_all
  have ps: "psolaShift signal pitchMarks fs targetFreqs sr hop =
          Some (foldl (normalize_sample signal (envelope s)) (output s) [0..<length (output s)])"
    using assms(1) by (simp add: psolaShift_def om s_def Let_def)
  define res where "res = foldl (normalize_sample signal (envelope s)) (output s) [0..<length (output s)]"
  have main: "length res = length signal
      \<and> (\<forall>i<length signal.
            res ! i = (if 1 / 1000 < envelope s ! i then output s ! i / envelope s ! i
                       else signal ! i))"
    unfolding res_def
    using normalize_fold [of "length (output s)" "output s" signal "envelope s"] len
    by simp
  have "psolaShift signal pitchMarks fs targetFreqs sr hop = Some res
         \<and> output_marks_loop (length signal) (length fs) targetFreqs sr hop
               (real_of_int (pitchMarks ! 0)) [pitchMarks ! 0] = Some outputMarks
         \<and> (let s = foldl (place_grain signal pitchMarks fs sr hop)
                       \<lparr>output = replicate (length signal) 0,
                        envelope = replicate (length signal) 0, inputMarkIdx = 0\<rparr> outputMarks
             in length res = length signal
              \<and> (\<forall>i<length signal.
                    res ! i = (if 1 / 1000 < envelope s ! i then output s ! i / envelope s ! i
                               else signal ! i)))"
    unfolding Let_def s_def [symmetric]
    using ps om main unfolding res_def by blast
  then show ?thesis
    by blast
qed

text \<open>
  C7. With at least two input marks (and a positive sample rate and hop size, so that the
  output marks are found), \<open>psolaShift\<close> returns a buffer as long as the signal in which
  every position holds the accumulated grain sum divided by the accumulated envelope where the
  envelope passes the test \<open>envelope[i] > 0.001\<close> of the code, and the input sample where it
  does not; \<open>s\<close> is the state after all grains are placed.
\<close>

theorem psolaShift_normalized:
  assumes "2 \<le> length pitchMarks" "0 < sr" "0 < hop"
  shows "\<exists>out outputMarks.
           psolaShift signal pitchMarks fs targetFreqs sr hop = Some out
         \<and> output_marks_loop (length signal) (length fs) targetFreqs sr hop
               (real_of_int (pitchMarks ! 0)) [pitchMarks ! 0] = Some outputMarks
         \<and> (let s = foldl (place_grain signal pitchMarks fs sr hop)
                       \<lparr>output = replicate (length signal) 0,
                        envelope = replicate (length signal) 0, inputMarkIdx = 0\<rparr> outputMarks
             in length out = length signal
              \<and> (\<forall>i<length signal.
                    out ! i = (if 1 / 1000 < envelope s ! i then output s ! i / envelope s ! i
                               else signal ! i)))"
  using assms by (rule psolaShift_result)

text \<open>
  A worked example: the signal 1, 2, 3, 4 with input marks 1 and 3, one voiced frame of
  period 1 and target period 1. The output marks are 1, 2, 3, the envelope is 0, 1, 1, 1, and
  the result 1, 2, 2, 4 holds the input sample at position 0 and the normalised grains elsewhere.
\<close>

lemma ex_output_marks: "output_marks_loop 4 1 [1] 1 4 1 [1] = Some [1, 2, 3]"
  by (subst output_marks_loop.simps, simp add: Let_def lookup_def getFrameIndex_def)+

lemma hann_values: "hann 0 = 0" "hann (1 / 2) = 1"
  by (simp_all add: hann_def)

lemma ex_scan:
  "nearest_scan [1, 3] 1 0 \<lparr>minDist = 0, nearestInputMark = 1, markIdx = 0\<rparr>
     = \<lparr>minDist = 0, nearestInputMark = 1, markIdx = 0\<rparr>"
  "nearest_scan [1, 3] 2 0 \<lparr>minDist = 1, nearestInputMark = 1, markIdx = 0\<rparr>
     = \<lparr>minDist = 1, nearestInputMark = 1, markIdx = 0\<rparr>"
  "nearest_scan [1, 3] 3 0 \<lparr>minDist = 2, nearestInputMark = 1, markIdx = 0\<rparr>
     = \<lparr>minDist = 0, nearestInputMark = 3, markIdx = 1\<rparr>"
  by (simp_all add: nearest_scan.simps Let_def)

lemma ex_range: "[- 1..0] = [- 1, 0 :: int]"
  by (simp add: upto.simps)

lemma ex_grains:
  "foldl (place_grain [1, 2, 3, 4] [1, 3] [tone 1] 1 4)
     \<lparr>output = [0, 0, 0, 0], envelope = [0, 0, 0, 0], inputMarkIdx = 0\<rparr> [1, 2, 3]
   = \<lparr>output = [0, 2, 2, 4], envelope = [0, 1, 1, 1], inputMarkIdx = 1\<rparr>"
  by (simp add: place_grain_def Let_def ex_scan getFrameIndex_def lookup_def tone_def
        grain_sample_def hann_values ex_range)

lemma ex_normalize:
  "foldl (normalize_sample [1, 2, 3, 4] [0, 1, 1, 1]) [0, 2, 2, 4] [0..<4] = [1, 2, 2, 4]"
  by code_simp

lemma ex_psola: "psolaShift [1, 2, 3, 4] [1, 3] [tone 1] [1] 1 4 = Some [1, 2, 2, 4]"
proof -
  have om: "output_marks_loop (length [1, 2, 3, 4 :: real]) (length [tone 1]) [1] 1 4
              (real_of_int ([1, 3] ! 0)) [[1, 3] ! 0] = Some [1, 2, 3]"
  proof -
    have "length [1, 2, 3, 4 :: real] = 4" "length [tone 1] = 1"
      "real_of_int ([1, 3] ! 0) = 1" "[1, 3 :: int] ! 0 = 1"
      by simp_all
    then show ?thesis
      by (simp only: ex_output_marks)
  qed
  have init: "replicate (length [1, 2, 3, 4 :: real]) (0 :: real) = [0, 0, 0, 0]"
    by simp
  have len: "length [0, 2, 2, 4 :: real] = 4"
    by simp
  have "\<not> length [1, 3 :: int] < 2"
    by simp
  then show ?thesis
    unfolding psolaShift_def
    by (simp only: if_False om option.case Let_def init ex_grains psola_state.simps len
          ex_normalize)
qed

theorem psolaShift_normalized_witness:
  "\<exists>out outputMarks.
      psolaShift [1, 2, 3, 4] [1, 3] [tone 1] [1] 1 4 = Some out
    \<and> output_marks_loop 4 1 [1] 1 4 1 [1] = Some outputMarks
    \<and> out = [1, 2, 2, 4] \<and> outputMarks = [1, 2, 3]"
proof -
  have h: "2 \<le> length [1, 3 :: int]" "(0 :: real) < 1" "(0 :: nat) < 4"
    by simp_all
  obtain out outputMarks where
    "psolaShift [1, 2, 3, 4] [1, 3] [tone 1] [1] 1 4 = Some out"
    "output_marks_loop (length [1, 2, 3, 4 :: real]) (length [tone 1]) [1] 1 4
       (real_of_int ([1, 3] ! 0)) [[1, 3] ! 0] = Some outputMarks"
    using psolaShift_normalized [OF h, of "[1, 2, 3, 4]" "[tone 1]" "[1]"]
    unfolding Let_def by blast
  then show ?thesis
    using ex_psola ex_output_marks by simp
qed

subsection \<open>Pitch marks\<close>

lemma walk_min_ge: "tau \<le> walk_min cmndf searchMax tau"
proof (induction cmndf searchMax tau rule: walk_min.induct)
  case (1 cmndf searchMax tau)
  show ?case
  proof (cases "tau + 1 < searchMax \<and> js_lt (entry cmndf (tau + 1)) (entry cmndf tau)")
    case True
    then have "tau + 1 \<le> walk_min cmndf searchMax (tau + 1)"
      using 1 by simp
    then show ?thesis
      using True by (subst walk_min.simps) simp
  next
    case False
    then show ?thesis
      by (subst walk_min.simps) auto
  qed
qed

lemma threshold_search_result:
  assumes "\<forall>tau\<in>set taus. 2 \<le> tau"
  shows "threshold_search cmndf threshold searchMax taus = (- 1, Fin 1)
       \<or> 2 \<le> fst (threshold_search cmndf threshold searchMax taus)"
  using assms
proof (induction taus)
  case Nil
  show ?case by simp
next
  case (Cons tau taus)
  show ?case
  proof (cases "js_lt (entry cmndf tau) (Fin threshold)")
    case True
    have "2 \<le> walk_min cmndf searchMax tau"
      using walk_min_ge [of tau cmndf searchMax] Cons.prems by simp
    then show ?thesis
      using True by (simp add: Let_def)
  next
    case False
    then show ?thesis
      using Cons by simp
  qed
qed

lemma global_min_result:
  assumes "\<forall>tau\<in>set taus. 2 \<le> tau" "best = (- 1, Fin 1) \<or> 2 \<le> fst best"
  shows "global_min cmndf taus best = (- 1, Fin 1) \<or> 2 \<le> fst (global_min cmndf taus best)"
  unfolding global_min_def
  by (rule foldl_invariant [where P = "\<lambda>b. b = (- 1, Fin 1) \<or> 2 \<le> fst b"])
     (use assms in auto)

lemma refine_tau_gt: "real_of_int bestTau - 1 < refine_tau cmndf halfWindow bestTau"
  by (auto simp: refine_tau_def Let_def split: jsnum.split)

lemma refine_tau_sentinel: "refine_tau cmndf halfWindow (- 1) = - 1"
  by (simp add: refine_tau_def)

lemma analyse_frame_frequency:
  assumes "0 < sr"
  shows "0 \<le> frequency (analyse_frame signal sr windowSize threshold minFreq maxFreq center)
       \<and> frequency (analyse_frame signal sr windowSize threshold minFreq maxFreq center) < sr"
proof -
  define halfWindow where "halfWindow = windowSize div 2"
  define cmndf where "cmndf = cmndf_array (diff_array signal center halfWindow) halfWindow"
  define searchMin where "searchMin = max \<lfloor>sr / maxFreq\<rfloor> 2"
  define searchMax where "searchMax = min \<lceil>sr / minFreq\<rceil> (int halfWindow - 1)"
  define dip where "dip = threshold_search cmndf threshold searchMax [searchMin..searchMax - 1]"
  define best where
    "best = (if fst dip < 0 then global_min cmndf [searchMin..searchMax - 1] dip else dip)"
  define refinedTau where "refinedTau = refine_tau cmndf halfWindow (fst best)"
  have taus: "\<forall>tau\<in>set [searchMin..searchMax - 1]. 2 \<le> tau"
    by (simp add: searchMin_def)
  have dip: "dip = (- 1, Fin 1) \<or> 2 \<le> fst dip"
    unfolding dip_def using taus by (rule threshold_search_result)
  have best: "best = (- 1, Fin 1) \<or> 2 \<le> fst best"
    unfolding best_def using global_min_result [OF taus dip] dip by auto
  have tau: "refinedTau = - 1 \<or> 1 < refinedTau"
    using best refine_tau_gt [of "fst best" cmndf halfWindow]
    by (auto simp: refinedTau_def refine_tau_sentinel)
  have f: "frequency (analyse_frame signal sr windowSize threshold minFreq maxFreq center) =
         (if js_lt (snd best) (Fin (threshold * 2)) \<and> 0 < refinedTau then sr / refinedTau else 0)"
    unfolding analyse_frame_def Let_def halfWindow_def [symmetric] cmndf_def [symmetric]
      searchMin_def [symmetric] searchMax_def [symmetric] dip_def [symmetric] best_def [symmetric]
      refinedTau_def [symmetric]
    by simp
  show ?thesis
  proof (cases "js_lt (snd best) (Fin (threshold * 2)) \<and> 0 < refinedTau")
    case False
    then show ?thesis
      unfolding f using assms by auto
  next
    case True
    then have "1 < refinedTau"
      using tau by auto
    then have "0 < sr / refinedTau" "sr / refinedTau < sr"
      using assms by (simp_all add: field_simps)
    then show ?thesis
      unfolding f using True by simp
  qed
qed

lemma octave_fix_cases: "octave_fix f m = f \<or> octave_fix f m = f / 2 \<or> octave_fix f m = f * 2"
  by (simp add: octave_fix_def Let_def)

lemma fresh_store_frames: "map (fresh_store fs) [0..<length fs] = fs"
  by (simp add: fresh_store_def map_nth)

lemma smooth_fresh_nth:
  assumes "i < length fs"
  shows "length (smooth_fresh fs w) = length fs
       \<and> (smooth_fresh fs w ! i = fs ! i
          \<or> (\<exists>m. smooth_fresh fs w ! i = rederive (fs ! i) (octave_fix (frequency (fs ! i)) m)))"
proof -
  let ?refs = "[0..<length fs]"
  let ?st = "fresh_store fs"
  have d: "distinct ?refs" and i: "i < length ?refs" "i \<le> length ?refs"
    using assms by simp_all
  have cur: "smooth_upto ?refs w ?st i (?refs ! i) = fs ! i"
    using smooth_upto_work [OF d i(2) i(1), of w ?st] assms
    by (simp add: nth_append fresh_store_def)
  have "smooth_fresh fs w ! i = smooth_upto ?refs w ?st (length ?refs) (?refs ! i)"
    using assms by (simp add: smooth_fresh_def smoothPitchTrack_def Let_def)
  also have "\<dots> = smooth_upto ?refs w ?st (Suc i) (?refs ! i)"
    using smooth_upto_settled [OF d i(1) order_refl] .
  also have "\<dots> = smooth_frame ?refs w (smooth_upto ?refs w ?st i) i (?refs ! i)"
    by simp
  finally have "smooth_fresh fs w ! i = smooth_frame ?refs w (smooth_upto ?refs w ?st i) i (?refs ! i)" .
  then have "smooth_fresh fs w ! i = fs ! i
          \<or> (\<exists>m. smooth_fresh fs w ! i = rederive (fs ! i) (octave_fix (frequency (fs ! i)) m))"
    unfolding smooth_frame_at cur by (metis (full_types))
  moreover have "length (smooth_fresh fs w) = length fs"
    by (simp add: smooth_fresh_def smoothPitchTrack_def Let_def)
  ultimately show ?thesis
    by simp
qed

lemma smooth_fresh_frequency:
  assumes "0 < sr" "\<forall>f\<in>set fs. 0 \<le> frequency f \<and> frequency f < sr" "i < length fs"
  shows "0 \<le> frequency (smooth_fresh fs w ! i) \<and> frequency (smooth_fresh fs w ! i) < 2 * sr"
proof -
  have f: "0 \<le> frequency (fs ! i)" "frequency (fs ! i) < sr"
    using assms(2,3) by simp_all
  have "0 \<le> octave_fix (frequency (fs ! i)) m \<and> octave_fix (frequency (fs ! i)) m < 2 * sr" for m
    using octave_fix_cases [of "frequency (fs ! i)" m] f assms(1) by auto
  then show ?thesis
    using smooth_fresh_nth [OF assms(3), of w] f assms(1)
    by (auto simp: rederive_fields)
qed

lemma peak_range:
  "peak signal start lo hi = start \<or> (lo \<le> peak signal start lo hi \<and> peak signal start lo hi < hi)"
  unfolding peak_def
proof (rule foldl_invariant [where P = "\<lambda>b. fst b = start \<or> (lo \<le> fst b \<and> fst b < hi)"])
  show "fst (start, NInf) = start \<or> (lo \<le> fst (start, NInf) \<and> fst (start, NInf) < hi)"
    by simp
next
  fix b :: "int \<times> jsnum" and j
  assume "fst b = start \<or> (lo \<le> fst b \<and> fst b < hi)" "j \<in> set [lo..hi - 1]"
  then show "fst (peak_step signal b j) = start
           \<or> (lo \<le> fst (peak_step signal b j) \<and> fst (peak_step signal b j) < hi)"
    by (auto simp: peak_step_def)
qed

lemma strict_sorted_last:
  assumes "sorted_wrt (<) (xs :: int list)" "x \<in> set xs"
  shows "x \<le> last xs"
  using assms by (induction xs) (auto simp: less_imp_le)

lemma good_marks_snoc:
  assumes "good_marks len marks" "marks \<noteq> []" "last marks < b" "b < int len"
  shows "good_marks len (marks @ [b])"
proof -
  have "\<forall>x\<in>set marks. x < b"
    using strict_sorted_last [of marks] assms(1,3) by (fastforce simp: good_marks_def)
  moreover have "0 \<le> last marks"
    using assms(1,2) by (simp add: good_marks_def)
  then have "0 \<le> b"
    using assms(3) by simp
  ultimately show ?thesis
    using assms by (auto simp: good_marks_def sorted_wrt_append)
qed

lemma period_positive:
  fixes sr f :: real
  assumes "0 < sr" "0 < f" "f < 2 * sr"
  shows "1 \<le> round (sr / f)"
proof -
  have "1 / 2 < sr / f"
    using assms by (simp add: field_simps)
  then have "1 \<le> sr / f + 1 / 2"
    by linarith
  then have "1 \<le> \<lfloor>sr / f + 1 / 2\<rfloor>"
    by (simp add: le_floor_iff)
  then show ?thesis
    by (simp add: round_def)
qed

lemma mark_loop_good:
  assumes "1 \<le> period" "marks \<noteq> []" "good_marks (length signal) marks"
    "nextMark = last marks + period"
  shows "\<exists>res. mark_loop signal period frameEnd nextMark marks = Some res
           \<and> good_marks (length signal) res"
  using assms(2,3,4)
proof (induction "nat (int (length signal) - nextMark)" arbitrary: nextMark marks rule: less_induct)
  case less
  show ?case
  proof (cases "nextMark < frameEnd \<and> nextMark < int (length signal)")
    case False
    then show ?thesis
      using less.prems by (subst mark_loop.simps) auto
  next
    case True
    define r where "r = period div 4"
    define bestPos where "bestPos = peak signal nextMark (max 0 (nextMark - r))
                            (min (int (length signal)) (nextMark + r))"
    have r: "r < period" "0 \<le> r"
      using assms(1) by (simp_all add: r_def)
    have "bestPos = nextMark \<or> (max 0 (nextMark - r) \<le> bestPos
             \<and> bestPos < min (int (length signal)) (nextMark + r))"
      unfolding bestPos_def by (rule peak_range)
    then have b: "nextMark - r \<le> bestPos" "bestPos < int (length signal)"
      using True r assms(1) by auto
    then have lastb: "last marks < bestPos"
      using less.prems(3) r(1) by simp
    have good: "good_marks (length signal) (marks @ [bestPos])"
      using less.prems(1,2) lastb b(2) by (intro good_marks_snoc)
    have dec: "nat (int (length signal) - (bestPos + period)) < nat (int (length signal) - nextMark)"
      using b(1) r(1) True by simp
    have "\<exists>res. mark_loop signal period frameEnd (bestPos + period) (marks @ [bestPos]) = Some res
            \<and> good_marks (length signal) res"
      by (rule less.hyps [OF dec _ good]) simp_all
    then show ?thesis
      using True
      by (subst mark_loop.simps) (simp add: Let_def r_def [symmetric] bestPos_def [symmetric])
  qed
qed

lemma marks_loop_good:
  assumes "0 < sr" "good_marks (length signal) marks"
    "\<forall>k<length fs. voiced (fs ! k) \<and> 0 < frequency (fs ! k) \<longrightarrow>
        (i + k) * hop < length signal \<and> frequency (fs ! k) < 2 * sr"
  shows "\<exists>res. marks_loop signal sr hop i fs marks = Some res \<and> good_marks (length signal) res"
  using assms(2,3)
proof (induction fs arbitrary: i marks)
  case Nil
  then show ?case by simp
next
  case (Cons frame rest)
  have rest: "\<forall>k<length rest. voiced (rest ! k) \<and> 0 < frequency (rest ! k) \<longrightarrow>
        (Suc i + k) * hop < length signal \<and> frequency (rest ! k) < 2 * sr"
    using Cons.prems(2) by fastforce
  have next_frame: "\<exists>res. marks_loop signal sr hop (i + 1) rest m = Some res
                       \<and> good_marks (length signal) res"
    if "good_marks (length signal) m" for m
    using Cons.IH [OF that, of "Suc i"] rest by simp
  show ?case
  proof (cases "\<not> voiced frame \<or> frequency frame \<le> 0")
    case True
    then show ?thesis
      using next_frame [OF Cons.prems(1)] by auto
  next
    case False
    then have fr: "i * hop < length signal" "frequency frame < 2 * sr" "0 < frequency frame"
      using Cons.prems(2) by fastforce+
    define period where "period = round (sr / frequency frame)"
    define frameStart where "frameStart = int (i * hop)"
    define frameEnd where "frameEnd = min (frameStart + int hop) (int (length signal))"
    define anchor where "anchor = peak signal frameStart frameStart
                                  (min (frameStart + period) (int (length signal)))"
    define marks1 where "marks1 = (if marks = [] then [anchor] else marks)"
    have period: "1 \<le> period"
      unfolding period_def using assms(1) fr(3) fr(2) by (rule period_positive)
    have "anchor = frameStart \<or> (frameStart \<le> anchor
            \<and> anchor < min (frameStart + period) (int (length signal)))"
      unfolding anchor_def by (rule peak_range)
    moreover have "0 \<le> frameStart" "frameStart < int (length signal)"
      using fr(1) by (simp_all add: frameStart_def del: of_nat_mult)
    ultimately have "0 \<le> anchor \<and> anchor < int (length signal)"
      by auto
    then have m1: "good_marks (length signal) marks1" "marks1 \<noteq> []"
      using Cons.prems(1) by (auto simp: marks1_def good_marks_def)
    have body: "marks_loop signal sr hop i (frame # rest) marks =
            (if last marks1 + period < frameEnd + period
             then (case mark_loop signal period frameEnd (last marks1 + period) marks1 of
                     None \<Rightarrow> None
                   | Some marks2 \<Rightarrow> marks_loop signal sr hop (i + 1) rest marks2)
             else marks_loop signal sr hop (i + 1) rest marks1)"
      using False
      unfolding marks_loop.simps Let_def period_def [symmetric] frameStart_def [symmetric]
        frameEnd_def [symmetric] anchor_def [symmetric] marks1_def [symmetric]
      by simp
    show ?thesis
    proof (cases "last marks1 + period < frameEnd + period")
      case False
      then show ?thesis
        using body next_frame [OF m1(1)] by simp
    next
      case True
      obtain marks2 where m2: "mark_loop signal period frameEnd (last marks1 + period) marks1 = Some marks2"
        "good_marks (length signal) marks2"
        using mark_loop_good [OF period m1(2) m1(1) refl] by blast
      show ?thesis
        using body True m2(1) next_frame [OF m2(2)] by simp
    qed
  qed
qed

lemma findPitchMarks_good:
  assumes "0 < sr"
    "\<forall>k<length fs. voiced (fs ! k) \<and> 0 < frequency (fs ! k) \<longrightarrow>
        k * hop < length signal \<and> frequency (fs ! k) < 2 * sr"
  shows "\<exists>marks. findPitchMarks signal fs sr hop = Some marks \<and> good_marks (length signal) marks"
  unfolding findPitchMarks_def
  by (rule marks_loop_good) (use assms in \<open>simp_all add: good_marks_def\<close>)

lemma frame_count_start:
  assumes "k < frame_count len windowSize hop 0" "0 < hop"
  shows "k * hop + windowSize < len"
proof -
  have w: "windowSize < len" and k: "k \<le> (len - windowSize - 1) div hop"
    using assms(1) by (auto simp: frame_count_def split: if_splits)
  have "k * hop \<le> (len - windowSize - 1) div hop * hop"
    using k by simp
  also have "\<dots> \<le> len - windowSize - 1"
    by (simp add: div_times_less_eq_dividend)
  finally show ?thesis
    using w by simp
qed

lemma pipeline_marks:
  assumes "0 < sr" "0 < hop"
  shows "\<exists>track marks.
           detectPitch signal sr hop windowSize threshold minFreq maxFreq = Some track
         \<and> findPitchMarks signal (smooth_fresh (frames track) w) sr hop = Some marks
         \<and> sorted_wrt (<) marks \<and> (\<forall>m\<in>set marks. 0 \<le> m \<and> m < int (length signal))"
proof -
  define fs where "fs = map (\<lambda>k. analyse_frame signal sr windowSize threshold minFreq maxFreq (k * hop))
                          [0..<frame_count (length signal) windowSize hop 0]"
  have track: "detectPitch signal sr hop windowSize threshold minFreq maxFreq =
          Some \<lparr>frames = fs, sampleRate = sr, hopSize = hop, medianPitch = median_pitch fs\<rparr>"
    unfolding fs_def by (rule detectPitch_closed [OF assms(2)])
  have len: "length fs = frame_count (length signal) windowSize hop 0"
    by (simp add: fs_def)
  have freq: "\<forall>f\<in>set fs. 0 \<le> frequency f \<and> frequency f < sr"
    using analyse_frame_frequency [OF assms(1)] by (auto simp: fs_def)
  have "\<forall>k<length (smooth_fresh fs w).
          voiced (smooth_fresh fs w ! k) \<and> 0 < frequency (smooth_fresh fs w ! k) \<longrightarrow>
          k * hop < length signal \<and> frequency (smooth_fresh fs w ! k) < 2 * sr"
  proof (intro allI impI)
    fix k
    assume "k < length (smooth_fresh fs w)"
    then have k: "k < length fs"
      by (simp add: smooth_fresh_def smoothPitchTrack_def Let_def)
    then have "k * hop + windowSize < length signal"
      using frame_count_start [OF _ assms(2)] len by simp
    then show "k * hop < length signal \<and> frequency (smooth_fresh fs w ! k) < 2 * sr"
      using smooth_fresh_frequency [OF assms(1) freq k, of w] by simp
  qed
  then obtain marks where "findPitchMarks signal (smooth_fresh fs w) sr hop = Some marks"
    "good_marks (length signal) marks"
    using findPitchMarks_good [OF assms(1)] by blast
  then show ?thesis
    using track by (simp add: good_marks_def)
qed

text \<open>
  C6. For every signal, with a positive sample rate and hop size, \<open>findPitchMarks\<close> on the
  smoothed frames of the signal's own pitch track returns, and its marks are strictly
  increasing, each one an index into the signal. (A voiced frame of the track starts inside
  the signal and its period is at least one sample; every new mark lies less than a period
  before the estimate one period past the last mark.)
\<close>

theorem findPitchMarks_increasing:
  assumes "0 < sr" "0 < hop" "0 < minFreq" "0 < maxFreq"
  shows "\<exists>track marks.
           detectPitch signal sr hop windowSize threshold minFreq maxFreq = Some track
         \<and> findPitchMarks signal (smooth_fresh (frames track) w) sr hop = Some marks
         \<and> sorted_wrt (<) marks \<and> (\<forall>m\<in>set marks. 0 \<le> m \<and> m < int (length signal))"
  using assms(1,2) by (rule pipeline_marks)

text \<open>
  A worked example: a square wave of 16 samples at 8 Hz, window 8, hop 4. Both frames are
  voiced at \<open>80 / 19\<close> Hz (period 2 after rounding) and the marks are 0, 2, 4, 6.
\<close>

lemma upt4: "[0..<4] = [0, 1, 2, 3]" "[1..<4] = [1, 2, 3]"
  by (simp_all add: upt_rec)

lemma sq_cmndf0: "cmndf_array (diff_array sq 0 4) 4 = [Fin 1, Fin 1, Fin 0, Fin (3 / 2)]"
  by code_simp

lemma sq_cmndf4: "cmndf_array (diff_array sq 4 4) 4 = [Fin 1, Fin 1, Fin 0, Fin (3 / 2)]"
  by code_simp

lemma sq_frame:
  assumes "center = 0 \<or> center = 4"
  shows "voiced (analyse_frame sq 8 8 (15 / 100) 1 4 center)"
    "frequency (analyse_frame sq 8 8 (15 / 100) 1 4 center) = 80 / 19"
  using assms
  by (auto simp: analyse_frame_def Let_def sq_cmndf0 sq_cmndf4 entry_def walk_min.simps
        refine_tau_def js_sub_def)

lemma neighborhood_length: "length (neighborhood st fs h i) \<le> max 1 (length fs)"
proof -
  have "length (neighborhood st fs h i) \<le> length [i - h ..< min (length fs - 1) (i + h) + 1]"
    unfolding neighborhood_def length_map by (rule length_filter_le)
  also have "\<dots> \<le> max 1 (length fs)"
    by auto
  finally show ?thesis .
qed

lemma smooth_fresh_short:
  assumes "length fs < 3"
  shows "smooth_fresh fs w = fs"
proof -
  have step: "smooth_frame [0..<length fs] w st i = st" for st i
  proof -
    have "length (neighborhood st [0..<length fs] (w div 2) i) < 3"
      using neighborhood_length [of st "[0..<length fs]" "w div 2" i] assms by simp
    then show ?thesis
      by (simp add: smooth_frame_def Let_def)
  qed
  have "foldl (smooth_frame [0..<length fs] w) (fresh_store fs) js = fresh_store fs" for js
    by (rule foldl_invariant [where P = "\<lambda>s. s = fresh_store fs"]) (simp_all add: step)
  then show ?thesis
    by (simp add: smooth_fresh_def smoothPitchTrack_def Let_def fresh_store_frames)
qed

lemma sq_frames:
  "\<exists>track f0 f1. detectPitch sq 8 4 8 (15 / 100) 1 4 = Some track \<and> frames track = [f0, f1]
      \<and> voiced f0 \<and> frequency f0 = 80 / 19 \<and> voiced f1 \<and> frequency f1 = 80 / 19"
proof -
  have n: "frame_count (length sq) 8 4 0 = 2"
    by (simp add: frame_count_def sq_def)
  have "[0..<2] = [0, 1]"
    by (simp add: upt_rec)
  then show ?thesis
    using sq_frame by (simp add: detectPitch_closed n)
qed

lemma sq_length: "length sq = 16"
  by (simp add: sq_def)

lemma sq_period: "round (19 / 10 :: real) = 2"
  by (simp add: round_def)

lemma sq_anchor: "peak sq 0 0 2 = 0"
  by code_simp

lemma peak_empty:
  assumes "hi \<le> lo"
  shows "peak signal start lo hi = start"
  using assms by (simp add: peak_def)

lemma sq_mark_loop: "mark_loop sq 2 4 2 [0] = Some [0, 2]" "mark_loop sq 2 8 4 [0, 2] = Some [0, 2, 4, 6]"
  by (subst mark_loop.simps, simp add: Let_def sq_length peak_empty)+

lemma sq_marks:
  assumes "voiced f0" "frequency f0 = 80 / 19" "voiced f1" "frequency f1 = 80 / 19"
  shows "findPitchMarks sq [f0, f1] 8 4 = Some [0, 2, 4, 6]"
  using assms(1,3)
  by (simp add: findPitchMarks_def Let_def assms(2,4) sq_length sq_period sq_anchor sq_mark_loop)

theorem findPitchMarks_increasing_witness:
  "\<exists>track marks.
      detectPitch sq 8 4 8 (15 / 100) 1 4 = Some track
    \<and> findPitchMarks sq (smooth_fresh (frames track) 5) 8 4 = Some marks
    \<and> marks = [0, 2, 4, 6]
    \<and> sorted_wrt (<) marks \<and> (\<forall>m\<in>set marks. 0 \<le> m \<and> m < int (length sq))"
proof -
  obtain track f0 f1 where t: "detectPitch sq 8 4 8 (15 / 100) 1 4 = Some track"
    "frames track = [f0, f1]" "voiced f0" "frequency f0 = 80 / 19" "voiced f1"
    "frequency f1 = 80 / 19"
    using sq_frames by blast
  have "smooth_fresh (frames track) 5 = [f0, f1]"
    using t(2) by (simp add: smooth_fresh_short)
  then have m: "findPitchMarks sq (smooth_fresh (frames track) 5) 8 4 = Some [0, 2, 4, 6]"
    using sq_marks [OF t(3-6)] by simp
  have h: "(0 :: real) < 8" "(0 :: nat) < 4" "(0 :: real) < 1" "(0 :: real) < 4"
    by simp_all
  show ?thesis
    using findPitchMarks_increasing [OF h, of sq 8 "15 / 100" 5] t(1) m by auto
qed

subsection \<open>The bypass\<close>

text \<open>
  C1. With \<open>tuneAmount \<le> 0\<close>, \<open>correctPitch\<close> returns a copy of the input: the same
  length and the same sample at every position, whatever the signal and the sample rate.
  The result does not depend on detection or correction.
\<close>

theorem correctPitch_bypass:
  assumes "tuneAmount params \<le> 0"
  shows "correctPitch inputSignal sr params = Some inputSignal"
  using assms by (simp add: correctPitch_def)

theorem correctPitch_bypass_witness:
  "tuneAmount \<lparr>retuneSpeed = 20, humanize = 30, tuneAmount = 0\<rparr> \<le> 0 \<and>
   correctPitch [1 / 2, - 1 / 4, 1 / 8] 44100 \<lparr>retuneSpeed = 20, humanize = 30, tuneAmount = 0\<rparr>
     = Some [1 / 2, - 1 / 4, 1 / 8]"
  using correctPitch_bypass [of "\<lparr>retuneSpeed = 20, humanize = 30, tuneAmount = 0\<rparr>"
      "[1 / 2, - 1 / 4, 1 / 8]" 44100]
  by simp

subsection \<open>The pipeline returns\<close>

lemma psolaShift_total:
  assumes "0 < sr" "0 < hop"
  shows "\<exists>out. psolaShift signal pitchMarks fs targetFreqs sr hop = Some out
           \<and> length out = length signal"
proof (cases "length pitchMarks < 2")
  case True
  then show ?thesis
    by (simp add: psolaShift_def)
next
  case False
  then have "2 \<le> length pitchMarks"
    by simp
  then show ?thesis
    using psolaShift_result [OF _ assms, of pitchMarks signal fs targetFreqs]
    unfolding Let_def by blast
qed

text \<open>
  C9. For every signal, every positive sample rate and all parameter values (those within
  the documented bounds among them) \<open>correctPitch\<close> returns a buffer as long as the input.
  The source has no operation that throws on these inputs, so the only way not to return is
  a loop that does not end: the detection loop, the mark placement of \<open>findPitchMarks\<close> and
  the output marks of \<open>psolaShift\<close> all return.
\<close>

theorem correctPitch_terminates:
  assumes "0 < sr"
  shows "\<exists>out track pitchMarks corrected.
           correctPitch signal sr params = Some out \<and> length out = length signal
         \<and> detectPitch signal sr 256 2048 (15 / 100) 60 1200 = Some track
         \<and> findPitchMarks signal (smooth_fresh (frames track) 5) sr 256 = Some pitchMarks
         \<and> psolaShift signal pitchMarks (smooth_fresh (frames track) 5)
               (computeTargetPitches (smooth_fresh (frames track) 5) sr 256 params) sr 256
             = Some corrected"
proof -
  obtain track pitchMarks where
    t: "detectPitch signal sr 256 2048 (15 / 100) 60 1200 = Some track" and
    m: "findPitchMarks signal (smooth_fresh (frames track) 5) sr 256 = Some pitchMarks"
    using pipeline_marks [OF assms, of 256 signal 2048 "15 / 100" 60 1200 5] by auto
  obtain corrected where
    c: "psolaShift signal pitchMarks (smooth_fresh (frames track) 5)
               (computeTargetPitches (smooth_fresh (frames track) 5) sr 256 params) sr 256
             = Some corrected"
    using psolaShift_total [OF assms, of 256] by (metis zero_less_numeral)
  have "\<exists>out. correctPitch signal sr params = Some out \<and> length out = length signal"
    using t m c by (simp add: correctPitch_def Let_def)
  then show ?thesis
    using t m c by blast
qed

theorem correctPitch_terminates_witness:
  "\<exists>out track pitchMarks corrected.
      correctPitch (replicate 3000 0) 44100 \<lparr>retuneSpeed = 20, humanize = 30, tuneAmount = 80\<rparr>
        = Some out \<and> length out = 3000
    \<and> detectPitch (replicate 3000 0) 44100 256 2048 (15 / 100) 60 1200 = Some track
    \<and> findPitchMarks (replicate 3000 0) (smooth_fresh (frames track) 5) 44100 256 = Some pitchMarks
    \<and> psolaShift (replicate 3000 0) pitchMarks (smooth_fresh (frames track) 5)
          (computeTargetPitches (smooth_fresh (frames track) 5) 44100 256
             \<lparr>retuneSpeed = 20, humanize = 30, tuneAmount = 80\<rparr>) 44100 256
        = Some corrected"
  using correctPitch_terminates [of 44100 "replicate 3000 0"
      "\<lparr>retuneSpeed = 20, humanize = 30, tuneAmount = 80\<rparr>"]
  by simp

end
